theory Spec2Isabelle
  imports Main "HOL-Library.Word"
begin

unbundle bit_operations_syntax

section \<open>Exceptions, items and the result type\<close>

text \<open>
  \<^verbatim>\<open>json::exception(what, row = 0, column = 0)\<close> and the \<^verbatim>\<open>std::bad_exception\<close> thrown on
  the two paths the source treats as unreachable. \<^verbatim>\<open>std::size_t\<close> is the unsigned 64-bit
  integer of an LP64 platform: its arithmetic wraps around at \<open>2 ^ 64\<close>.
\<close>

type_synonym size_t = "64 word"

datatype exception = Json_exception string size_t size_t | Bad_exception

datatype item =
    object_begin
  | object_end
  | array_begin
  | array_end
  | key
  | string_value
  | integer_value
  | real_value
  | null_value
  | true_value
  | false_value

text \<open>
  A member function that may throw maps the state before the call either to the state
  after it (\<open>Inr\<close>) or to the exception together with the state reached when it was
  thrown (\<open>Inl\<close>), so that what a failing call has already changed stays visible.
\<close>

type_synonym 's result = "(exception \<times> 's) + 's"

text \<open>The comma operator and statement sequencing: run \<open>a\<close>, then \<open>b\<close> on its state.\<close>

definition seq :: "('s \<Rightarrow> (exception \<times> 's) + 's) \<Rightarrow> ('s \<Rightarrow> (exception \<times> 's) + 'a) \<Rightarrow> 's \<Rightarrow> (exception \<times> 's) + 'a" where
  "seq a b s = (case a s of Inl x \<Rightarrow> Inl x | Inr s' \<Rightarrow> b s')"

section \<open>Character classes\<close>

abbreviation dquote :: char where "dquote \<equiv> CHR 0x22"
abbreviation backslash :: char where "backslash \<equiv> CHR 0x5C"
abbreviation ch_b :: char where "ch_b \<equiv> CHR 0x08"
abbreviation ch_t :: char where "ch_t \<equiv> CHR 0x09"
abbreviation ch_n :: char where "ch_n \<equiv> CHR 0x0A"
abbreviation ch_f :: char where "ch_f \<equiv> CHR 0x0C"
abbreviation ch_r :: char where "ch_r \<equiv> CHR 0x0D"

text \<open>
  \<^verbatim>\<open>std::isspace\<close>, \<^verbatim>\<open>std::isdigit\<close> and \<^verbatim>\<open>std::isxdigit\<close> of the C library, in the
  default "C" locale, on the byte value of a \<^verbatim>\<open>char\<close>.
\<close>

definition isspace :: "char \<Rightarrow> bool" where
  "isspace c = (of_char c = (32::nat) \<or> (9 \<le> (of_char c :: nat) \<and> (of_char c :: nat) \<le> 13))"

definition isdigit :: "char \<Rightarrow> bool" where
  "isdigit c = (48 \<le> (of_char c :: nat) \<and> (of_char c :: nat) \<le> 57)"

definition isxdigit :: "char \<Rightarrow> bool" where
  "isxdigit c = (isdigit c
     \<or> (97 \<le> (of_char c :: nat) \<and> (of_char c :: nat) \<le> 102)
     \<or> (65 \<le> (of_char c :: nat) \<and> (of_char c :: nat) \<le> 70))"

section \<open>The reader\<close>

datatype token =
    object_begin_token
  | object_end_token
  | array_begin_token
  | array_end_token
  | colon_token
  | comma_token
  | string_token
  | integer_token
  | real_token
  | null_token
  | true_token
  | false_token

datatype char_state =
    default_state
  | string_state
  | escape_state
  | unicode_1_state
  | unicode_2_state
  | unicode_3_state
  | unicode_4_state
  | integer_1_state
  | integer_n_state
  | integer_z_state
  | fractional_1_state
  | fractional_n_state
  | exponent_state
  | exponent_1_state
  | exponent_n_state
  | null_1_state
  | null_2_state
  | null_3_state
  | true_1_state
  | true_2_state
  | true_3_state
  | false_1_state
  | false_2_state
  | false_3_state
  | false_4_state

datatype token_state =
    object_1_state
  | object_2_state
  | object_3_state
  | object_v_state
  | object_n_state
  | array_1_state
  | array_v_state
  | array_n_state

text \<open>
  The private members of \<^verbatim>\<open>basic_reader<char>\<close>. The stack \<^verbatim>\<open>m_token_state\<close> is a list
  whose head is the top.
\<close>

record reader =
  m_token_state :: "token_state list"
  m_char_state :: char_state
  m_data :: string
  m_row :: size_t
  m_column :: size_t
  m_unicode :: "16 word"

definition reader_init :: reader where
  "reader_init = \<lparr> m_token_state = [], m_char_state = default_state, m_data = [],
                   m_row = 1, m_column = 1, m_unicode = 0 \<rparr>"

text \<open>
  \<^verbatim>\<open>m_callback\<close> is any function of the item, the payload and the position; what it
  captures by reference (in \<^verbatim>\<open>main.cpp\<close>, the writer and the output stream) is the
  component \<open>'u\<close> that travels beside the reader. An exception of the callback leaves
  through the reader.
\<close>

type_synonym 'u callback = "item \<Rightarrow> string \<Rightarrow> size_t \<Rightarrow> size_t \<Rightarrow> 'u \<Rightarrow> (exception \<times> 'u) + 'u"

type_synonym 'u conf = "reader \<times> 'u"

text \<open>A member function that only updates the reader and cannot throw.\<close>

definition upd :: "(reader \<Rightarrow> reader) \<Rightarrow> 'u conf \<Rightarrow> 'u conf result" where
  "upd f s = Inr (f (fst s), snd s)"

text \<open>\<^verbatim>\<open>throw json::exception(what, m_row, m_column)\<close>\<close>

definition raise :: "string \<Rightarrow> 'u conf \<Rightarrow> (exception \<times> 'u conf) + 'a" where
  "raise what s = Inl (Json_exception what (m_row (fst s)) (m_column (fst s)), s)"

definition bad_exception :: "'u conf \<Rightarrow> (exception \<times> 'u conf) + 'a" where
  "bad_exception s = Inl (Bad_exception, s)"

text \<open>\<^verbatim>\<open>m_row++\<close> and \<^verbatim>\<open>m_column++\<close> are increments of a \<^verbatim>\<open>std::size_t\<close>.\<close>

definition move :: "char \<Rightarrow> reader \<Rightarrow> reader" where
  "move input r =
     (if input = ch_n then r\<lparr>m_column := 1, m_row := m_row r + 1\<rparr>
      else r\<lparr>m_column := m_column r + 1\<rparr>)"

definition next_state :: "char_state \<Rightarrow> 'u conf \<Rightarrow> (exception \<times> 'u conf) + (bool \<times> 'u conf)" where
  "next_state state s = Inr (True, ((fst s)\<lparr>m_char_state := state\<rparr>, snd s))"

definition repeat :: "char_state \<Rightarrow> 'u conf \<Rightarrow> (exception \<times> 'u conf) + (bool \<times> 'u conf)" where
  "repeat state s = Inr (False, ((fst s)\<lparr>m_char_state := state\<rparr>, snd s))"

definition take_c :: "char \<Rightarrow> reader \<Rightarrow> reader" where
  "take_c input r = r\<lparr>m_data := m_data r @ [input]\<rparr>"

text \<open>
  The bytes \<^verbatim>\<open>take_unicode\<close> pushes for the accumulator \<open>u\<close>; the operands are promoted
  to \<^verbatim>\<open>int\<close> in the source and every result is below 256.
\<close>

definition unicode_bytes :: "16 word \<Rightarrow> string" where
  "unicode_bytes u =
     (if u < 0x80 then [char_of (unat u)]
      else if u < 0x800 then
        [char_of (unat (0xC0 OR (drop_bit 6 u AND 0x1F))),
         char_of (unat (0x80 OR (u AND 0x3F)))]
      else
        [char_of (unat (0xE0 OR (drop_bit 12 u AND 0x0F))),
         char_of (unat (0x80 OR (drop_bit 6 u AND 0x3F))),
         char_of (unat (0x80 OR (u AND 0x3F)))])"

definition take_unicode :: "reader \<Rightarrow> reader" where
  "take_unicode r = r\<lparr>m_data := m_data r @ unicode_bytes (m_unicode r), m_unicode := 0\<rparr>"

text \<open>\<^verbatim>\<open>m_unicode = (m_unicode << 4) | digit\<close>, truncated to \<^verbatim>\<open>std::uint16_t\<close>.\<close>

definition unicode :: "char \<Rightarrow> 'u conf \<Rightarrow> 'u conf result" where
  "unicode input s =
     (if 48 \<le> (of_char input :: nat) \<and> (of_char input :: nat) \<le> 57 then
        upd (\<lambda>r. r\<lparr>m_unicode := push_bit 4 (m_unicode r) OR of_nat (of_char input - 48)\<rparr>) s
      else if 97 \<le> (of_char input :: nat) \<and> (of_char input :: nat) \<le> 102 then
        upd (\<lambda>r. r\<lparr>m_unicode := push_bit 4 (m_unicode r) OR of_nat (of_char input - 97 + 10)\<rparr>) s
      else if 65 \<le> (of_char input :: nat) \<and> (of_char input :: nat) \<le> 70 then
        upd (\<lambda>r. r\<lparr>m_unicode := push_bit 4 (m_unicode r) OR of_nat (of_char input - 65 + 10)\<rparr>) s
      else bad_exception s)"

definition push :: "token_state \<Rightarrow> reader \<Rightarrow> reader" where
  "push state r = r\<lparr>m_token_state := state # m_token_state r\<rparr>"

text \<open>
  \<^verbatim>\<open>jump\<close> and \<^verbatim>\<open>pop\<close> are only reached from the branch of \<^verbatim>\<open>token\<close> where the stack
  is not empty; on an empty stack (undefined behaviour in the source) the model leaves
  the stack as it is.
\<close>

definition jump :: "token_state \<Rightarrow> reader \<Rightarrow> reader" where
  "jump state r = r\<lparr>m_token_state := (case m_token_state r of [] \<Rightarrow> [] | _ # rest \<Rightarrow> state # rest)\<rparr>"

definition pop :: "reader \<Rightarrow> reader" where
  "pop r = r\<lparr>m_token_state := (case m_token_state r of [] \<Rightarrow> [] | _ # rest \<Rightarrow> rest)\<rparr>"

definition call :: "'u callback \<Rightarrow> item \<Rightarrow> 'u conf \<Rightarrow> 'u conf result" where
  "call cb it s =
     (case cb it (m_data (fst s)) (m_row (fst s)) (m_column (fst s)) (snd s) of
        Inl (e, u') \<Rightarrow> Inl (e, (fst s, u'))
      | Inr u' \<Rightarrow> Inr ((fst s)\<lparr>m_data := []\<rparr>, u'))"

text \<open>The code under \<^verbatim>\<open>case object_2_state\<close>, which \<^verbatim>\<open>case object_1_state\<close> falls into.\<close>

definition token_object_2_state :: "'u callback \<Rightarrow> token \<Rightarrow> 'u conf \<Rightarrow> 'u conf result" where
  "token_object_2_state cb input s =
     (if input = string_token then seq (call cb key) (upd (jump object_3_state)) s
      else raise (''key or '' @ [dquote] @ ''}'' @ [dquote] @ '' expected'') s)"

text \<open>The code under \<^verbatim>\<open>case array_v_state\<close>, which \<^verbatim>\<open>case array_1_state\<close> falls into.\<close>

definition token_array_v_state :: "'u callback \<Rightarrow> token \<Rightarrow> 'u conf \<Rightarrow> 'u conf result" where
  "token_array_v_state cb input s =
     seq (upd (jump array_n_state))
       (\<lambda>s.
          if input = object_begin_token then seq (call cb object_begin) (upd (push object_1_state)) s
          else if input = array_begin_token then seq (call cb array_begin) (upd (push array_1_state)) s
          else if input = string_token then call cb string_value s
          else if input = integer_token then call cb integer_value s
          else if input = real_token then call cb real_value s
          else if input = null_token then call cb null_value s
          else if input = true_token then call cb true_value s
          else if input = false_token then call cb false_value s
          else raise (''value or '' @ [dquote] @ '']'' @ [dquote] @ '' expected'') s) s"

definition token :: "'u callback \<Rightarrow> token \<Rightarrow> 'u conf \<Rightarrow> 'u conf result" where
  "token cb input s =
     (case m_token_state (fst s) of
        [] \<Rightarrow>
          if input = object_begin_token then seq (call cb object_begin) (upd (push object_1_state)) s
          else if input = array_begin_token then seq (call cb array_begin) (upd (push array_1_state)) s
          else raise ([dquote] @ ''{'' @ [dquote] @ '' or '' @ [dquote] @ ''['' @ [dquote] @ '' expected'') s
      | st # _ \<Rightarrow>
          (case st of
             object_1_state \<Rightarrow>
               if input = object_end_token then seq (call cb object_end) (upd pop) s
               else token_object_2_state cb input s
           | object_2_state \<Rightarrow> token_object_2_state cb input s
           | object_3_state \<Rightarrow>
               if input = colon_token then upd (jump object_v_state) s
               else raise ([dquote] @ '':'' @ [dquote] @ '' expected'') s
           | object_v_state \<Rightarrow>
               seq (upd (jump object_n_state))
                 (\<lambda>s.
                    if input = object_begin_token then seq (call cb object_begin) (upd (push object_1_state)) s
                    else if input = array_begin_token then seq (call cb array_begin) (upd (push array_1_state)) s
                    else if input = string_token then call cb string_value s
                    else if input = integer_token then call cb integer_value s
                    else if input = real_token then call cb real_value s
                    else if input = null_token then call cb null_value s
                    else if input = true_token then call cb true_value s
                    else if input = false_token then call cb false_value s
                    else raise ''value expected'' s) s
           | object_n_state \<Rightarrow>
               if input = object_end_token then seq (call cb object_end) (upd pop) s
               else if input = comma_token then upd (jump object_2_state) s
               else raise ([dquote] @ ''}'' @ [dquote] @ '' or '' @ [dquote] @ '','' @ [dquote] @ '' expected'') s
           | array_1_state \<Rightarrow>
               if input = array_end_token then seq (call cb array_end) (upd pop) s
               else token_array_v_state cb input s
           | array_v_state \<Rightarrow> token_array_v_state cb input s
           | array_n_state \<Rightarrow>
               if input = array_end_token then seq (call cb array_end) (upd pop) s
               else if input = comma_token then upd (jump array_v_state) s
               else raise ([dquote] @ '']'' @ [dquote] @ '' or '' @ [dquote] @ '','' @ [dquote] @ '' expected'') s))"

text \<open>The code under \<^verbatim>\<open>case integer_z_state\<close>, which \<^verbatim>\<open>case integer_n_state\<close> falls into.\<close>

definition scan_integer_z_state :: "'u callback \<Rightarrow> char \<Rightarrow> 'u conf \<Rightarrow> (exception \<times> 'u conf) + (bool \<times> 'u conf)" where
  "scan_integer_z_state cb input s =
     (if input = CHR ''.'' then seq (upd (take_c input)) (next_state fractional_1_state) s
      else if input = CHR ''e'' \<or> input = CHR ''E'' then seq (upd (take_c input)) (next_state exponent_state) s
      else seq (token cb integer_token) (repeat default_state) s)"

definition scan :: "'u callback \<Rightarrow> char \<Rightarrow> 'u conf \<Rightarrow> (exception \<times> 'u conf) + (bool \<times> 'u conf)" where
  "scan cb input s =
     (case m_char_state (fst s) of
        default_state \<Rightarrow>
          if isspace input then next_state default_state s
          else if input = CHR ''{'' then seq (token cb object_begin_token) (next_state default_state) s
          else if input = CHR ''}'' then seq (token cb object_end_token) (next_state default_state) s
          else if input = CHR ''['' then seq (token cb array_begin_token) (next_state default_state) s
          else if input = CHR '']'' then seq (token cb array_end_token) (next_state default_state) s
          else if input = CHR '':'' then seq (token cb colon_token) (next_state default_state) s
          else if input = CHR '','' then seq (token cb comma_token) (next_state default_state) s
          else if input = dquote then next_state string_state s
          else if input = CHR ''-'' then seq (upd (take_c input)) (next_state integer_1_state) s
          else if input = CHR ''n'' then next_state null_1_state s
          else if input = CHR ''t'' then next_state true_1_state s
          else if input = CHR ''f'' then next_state false_1_state s
          else if isdigit input then
            seq (upd (take_c input))
              (next_state (if input = CHR ''0'' then integer_z_state else integer_n_state)) s
          else raise ''unexpected character'' s
      | string_state \<Rightarrow>
          if input = dquote then seq (token cb string_token) (next_state default_state) s
          else if input = backslash then next_state escape_state s
          else seq (upd (take_c input)) (next_state string_state) s
      | escape_state \<Rightarrow>
          if input = dquote then seq (upd (take_c dquote)) (next_state string_state) s
          else if input = backslash then seq (upd (take_c backslash)) (next_state string_state) s
          else if input = CHR ''/'' then seq (upd (take_c CHR ''/'')) (next_state string_state) s
          else if input = CHR ''b'' then seq (upd (take_c ch_b)) (next_state string_state) s
          else if input = CHR ''f'' then seq (upd (take_c ch_f)) (next_state string_state) s
          else if input = CHR ''n'' then seq (upd (take_c ch_n)) (next_state string_state) s
          else if input = CHR ''r'' then seq (upd (take_c ch_r)) (next_state string_state) s
          else if input = CHR ''t'' then seq (upd (take_c ch_t)) (next_state string_state) s
          else if input = CHR ''u'' then next_state unicode_1_state s
          else raise ''unexpected character'' s
      | unicode_1_state \<Rightarrow>
          if isxdigit input then seq (unicode input) (next_state unicode_2_state) s
          else raise ''unexpected character'' s
      | unicode_2_state \<Rightarrow>
          if isxdigit input then seq (unicode input) (next_state unicode_3_state) s
          else raise ''unexpected character'' s
      | unicode_3_state \<Rightarrow>
          if isxdigit input then seq (unicode input) (next_state unicode_4_state) s
          else raise ''unexpected character'' s
      | unicode_4_state \<Rightarrow>
          if isxdigit input then seq (unicode input) (seq (upd take_unicode) (next_state string_state)) s
          else raise ''unexpected character'' s
      | integer_1_state \<Rightarrow>
          if isdigit input then
            seq (upd (take_c input))
              (next_state (if input = CHR ''0'' then integer_z_state else integer_n_state)) s
          else raise ''unexpected character'' s
      | integer_n_state \<Rightarrow>
          if isdigit input then seq (upd (take_c input)) (next_state integer_n_state) s
          else scan_integer_z_state cb input s
      | integer_z_state \<Rightarrow> scan_integer_z_state cb input s
      | fractional_1_state \<Rightarrow>
          if isdigit input then seq (upd (take_c input)) (next_state fractional_n_state) s
          else raise ''unexpected character'' s
      | fractional_n_state \<Rightarrow>
          if isdigit input then seq (upd (take_c input)) (next_state fractional_n_state) s
          else if input = CHR ''e'' \<or> input = CHR ''E'' then seq (upd (take_c input)) (next_state exponent_state) s
          else seq (token cb real_token) (repeat default_state) s
      | exponent_state \<Rightarrow>
          if isdigit input then seq (upd (take_c input)) (next_state exponent_n_state) s
          else if input = CHR ''-'' \<or> input = CHR ''+'' then seq (upd (take_c input)) (next_state exponent_1_state) s
          else raise ''unexpected character'' s
      | exponent_1_state \<Rightarrow>
          if isdigit input then seq (upd (take_c input)) (next_state exponent_n_state) s
          else raise ''unexpected character'' s
      | exponent_n_state \<Rightarrow>
          if isdigit input then seq (upd (take_c input)) (next_state exponent_n_state) s
          else seq (token cb real_token) (repeat default_state) s
      | null_1_state \<Rightarrow>
          if input = CHR ''u'' then next_state null_2_state s
          else raise ''unexpected character'' s
      | null_2_state \<Rightarrow>
          if input = CHR ''l'' then next_state null_3_state s
          else raise ''unexpected character'' s
      | null_3_state \<Rightarrow>
          if input = CHR ''l'' then seq (token cb null_token) (next_state default_state) s
          else raise ''unexpected character'' s
      | true_1_state \<Rightarrow>
          if input = CHR ''r'' then next_state true_2_state s
          else raise ''unexpected character'' s
      | true_2_state \<Rightarrow>
          if input = CHR ''u'' then next_state true_3_state s
          else raise ''unexpected character'' s
      | true_3_state \<Rightarrow>
          if input = CHR ''e'' then seq (token cb true_token) (next_state default_state) s
          else raise ''unexpected character'' s
      | false_1_state \<Rightarrow>
          if input = CHR ''a'' then next_state false_2_state s
          else raise ''unexpected character'' s
      | false_2_state \<Rightarrow>
          if input = CHR ''l'' then next_state false_3_state s
          else raise ''unexpected character'' s
      | false_3_state \<Rightarrow>
          if input = CHR ''s'' then next_state false_4_state s
          else raise ''unexpected character'' s
      | false_4_state \<Rightarrow>
          if input = CHR ''e'' then seq (token cb false_token) (next_state default_state) s
          else raise ''unexpected character'' s)"

text \<open>
  \<^verbatim>\<open>operator()(char_type input)\<close>: scan the character until \<^verbatim>\<open>scan\<close> returns true,
  then advance the cursor once. \<^verbatim>\<open>scan\<close> returns false only through \<^verbatim>\<open>repeat\<close>, which
  leaves the lexer in \<^verbatim>\<open>default_state\<close>, where it never returns false: the loop runs
  the body at most twice.
\<close>

function feed :: "'u callback \<Rightarrow> char \<Rightarrow> 'u conf \<Rightarrow> 'u conf result" where
  "feed cb input s =
     (case scan cb input s of
        Inl x \<Rightarrow> Inl x
      | Inr (done, s') \<Rightarrow> if done then upd (move input) s' else feed cb input s')"
  by pat_completeness auto

lemma scan_False:
  assumes "scan cb input s = Inr (False, s')"
  shows "m_char_state (fst s') = default_state \<and> m_char_state (fst s) \<noteq> default_state"
  using assms
  by (cases "m_char_state (fst s)")
     (auto simp: scan_def scan_integer_z_state_def raise_def next_state_def repeat_def seq_def
           split: if_splits sum.splits)

termination feed
  apply (relation "measure (\<lambda>(cb, input, s). if m_char_state (fst s) = default_state then 0 else 1)")
   apply simp
  apply (auto dest: scan_False)
  done

text \<open>
  \<^verbatim>\<open>std::for_each(first, last, reader)\<close>: \<^verbatim>\<open>operator()\<close> on each character in order; the
  first exception ends the iteration.
\<close>

fun feed_all :: "'u callback \<Rightarrow> string \<Rightarrow> 'u conf \<Rightarrow> 'u conf result" where
  "feed_all cb [] s = Inr s"
| "feed_all cb (c # cs) s = (case feed cb c s of Inl x \<Rightarrow> Inl x | Inr s' \<Rightarrow> feed_all cb cs s')"

text \<open>
  \<^verbatim>\<open>read(first, last)\<close> hands \<^verbatim>\<open>*this\<close> to \<^verbatim>\<open>std::for_each\<close> by value: the characters
  are fed to a copy of the reader, whose callback reaches the same captured objects, and
  the reader \<^verbatim>\<open>read\<close> was called on keeps the state it had.
\<close>

definition read :: "'u callback \<Rightarrow> string \<Rightarrow> 'u conf \<Rightarrow> 'u conf result" where
  "read cb cs s =
     (case feed_all cb cs s of
        Inl (e, s') \<Rightarrow> Inl (e, (fst s, snd s'))
      | Inr s' \<Rightarrow> Inr (fst s, snd s'))"

text \<open>A callback that records every call: item, payload, row and column.\<close>

definition cb_log :: "(item \<times> string \<times> size_t \<times> size_t) list callback" where
  "cb_log it data row column u = Inr (u @ [(it, data, row, column)])"

section \<open>The writer\<close>

datatype w_token_state =
    w_object_1_state
  | w_object_v_state
  | w_object_n_state
  | w_array_1_state
  | w_array_n_state

record writer =
  m_indent :: size_t
  m_state :: "w_token_state list"

definition writer_init :: writer where
  "writer_init = \<lparr> m_indent = 2, m_state = [] \<rparr>"

definition indent :: "size_t \<Rightarrow> writer \<Rightarrow> writer" where
  "indent n w = w\<lparr>m_indent := n\<rparr>"

text \<open>
  The output iterator is the list of the characters written through it so far, beside
  the writer.
\<close>

type_synonym wconf = "writer \<times> string"

definition object_begin_data :: string where "object_begin_data = ''{''"
definition object_end_data :: string where "object_end_data = ''}''"
definition array_begin_data :: string where "array_begin_data = ''[''"
definition array_end_data :: string where "array_end_data = '']''"
definition comma_data :: string where "comma_data = '',''"
definition colon_data :: string where "colon_data = [CHR '':'', CHR '' '']"
definition null_data :: string where "null_data = ''null''"
definition true_data :: string where "true_data = ''true''"
definition false_data :: string where "false_data = ''false''"

definition w_push :: "w_token_state \<Rightarrow> wconf \<Rightarrow> wconf" where
  "w_push state s = ((fst s)\<lparr>m_state := state # m_state (fst s)\<rparr>, snd s)"

text \<open>As in the reader, \<^verbatim>\<open>jump\<close> and \<^verbatim>\<open>pop\<close> are only reached with a stack that is not empty.\<close>

definition w_jump :: "w_token_state \<Rightarrow> wconf \<Rightarrow> wconf" where
  "w_jump state s =
     ((fst s)\<lparr>m_state := (case m_state (fst s) of [] \<Rightarrow> [] | _ # rest \<Rightarrow> state # rest)\<rparr>, snd s)"

definition w_pop :: "wconf \<Rightarrow> wconf" where
  "w_pop s = ((fst s)\<lparr>m_state := (case m_state (fst s) of [] \<Rightarrow> [] | _ # rest \<Rightarrow> rest)\<rparr>, snd s)"

text \<open>\<^verbatim>\<open>m_state.size() * m_indent\<close> is a product of two \<^verbatim>\<open>std::size_t\<close> and wraps as such.\<close>

definition endl :: "wconf \<Rightarrow> wconf" where
  "endl s =
     (if m_indent (fst s) \<noteq> 0 then
        (fst s, snd s @ [ch_n]
           @ replicate (unat (of_nat (length (m_state (fst s))) * m_indent (fst s))) CHR '' '')
      else s)"

definition encode :: "char \<Rightarrow> string" where
  "encode input =
     (if input = dquote then [backslash, dquote]
      else if input = backslash then [backslash, backslash]
      else if input = CHR ''/'' then [backslash, CHR ''/'']
      else if input = ch_b then [backslash, CHR ''b'']
      else if input = ch_f then [backslash, CHR ''f'']
      else if input = ch_n then [backslash, CHR ''n'']
      else if input = ch_r then [backslash, CHR ''r'']
      else if input = ch_t then [backslash, CHR ''t'']
      else [input])"

definition w_string :: "string \<Rightarrow> wconf \<Rightarrow> wconf" where
  "w_string data s = (fst s, snd s @ [dquote] @ concat (map encode data) @ [dquote])"

definition w_token :: "string \<Rightarrow> wconf \<Rightarrow> wconf" where
  "w_token data s = (fst s, snd s @ data)"

text \<open>The operands of a \<^verbatim>\<open>return a, b, c, output\<close>, none of which throws, in order.\<close>

definition steps :: "('s \<Rightarrow> 's) list \<Rightarrow> 's \<Rightarrow> 's result" where
  "steps fs s = Inr (fold (\<lambda>f. f) fs s)"

text \<open>\<^verbatim>\<open>throw json::exception(what)\<close>: row and column take their default, 0.\<close>

definition w_raise :: "string \<Rightarrow> wconf \<Rightarrow> wconf result" where
  "w_raise what s = Inl (Json_exception what 0 0, s)"

definition w_write :: "item \<Rightarrow> string \<Rightarrow> wconf \<Rightarrow> wconf result" where
  "w_write it data s =
     (case m_state (fst s) of
        [] \<Rightarrow>
          if it = object_begin then steps [w_token object_begin_data, w_push w_object_1_state] s
          else if it = array_begin then steps [w_token array_begin_data, w_push w_array_1_state] s
          else w_raise ''object or array begin expected'' s
      | st # _ \<Rightarrow>
          (case st of
             w_object_1_state \<Rightarrow>
               if it = object_end then steps [w_pop, w_token object_end_data] s
               else if it = key then
                 steps [endl, w_string data, w_token colon_data, w_jump w_object_v_state] s
               else w_raise ''object end or key expected'' s
           | w_object_v_state \<Rightarrow>
               if it = object_begin then
                 steps [w_token object_begin_data, w_jump w_object_n_state, w_push w_object_1_state] s
               else if it = array_begin then
                 steps [w_token array_begin_data, w_jump w_object_n_state, w_push w_array_1_state] s
               else if it = string_value then steps [w_string data, w_jump w_object_n_state] s
               else if it = integer_value then steps [w_token data, w_jump w_object_n_state] s
               else if it = real_value then steps [w_token data, w_jump w_object_n_state] s
               else if it = null_value then steps [w_token null_data, w_jump w_object_n_state] s
               else if it = true_value then steps [w_token true_data, w_jump w_object_n_state] s
               else if it = false_value then steps [w_token false_data, w_jump w_object_n_state] s
               else w_raise ''value expected'' s
           | w_object_n_state \<Rightarrow>
               if it = object_end then steps [w_pop, endl, w_token object_end_data] s
               else if it = key then
                 steps [w_token comma_data, endl, w_string data, w_token colon_data,
                        w_jump w_object_v_state] s
               else w_raise ''object end of key expected'' s
           | w_array_1_state \<Rightarrow>
               if it = array_end then steps [w_pop, w_token array_end_data] s
               else if it = object_begin then
                 steps [endl, w_token object_begin_data, w_jump w_array_n_state,
                        w_push w_object_1_state] s
               else if it = array_begin then
                 steps [endl, w_token array_begin_data, w_jump w_array_n_state,
                        w_push w_array_1_state] s
               else if it = string_value then steps [endl, w_string data, w_jump w_array_n_state] s
               else if it = integer_value then steps [endl, w_token data, w_jump w_array_n_state] s
               else if it = real_value then steps [endl, w_token data, w_jump w_array_n_state] s
               else if it = null_value then steps [endl, w_token null_data, w_jump w_array_n_state] s
               else if it = true_value then steps [endl, w_token true_data, w_jump w_array_n_state] s
               else if it = false_value then steps [endl, w_token false_data, w_jump w_array_n_state] s
               else w_raise ''array end of value expected'' s
           | w_array_n_state \<Rightarrow>
               if it = array_end then steps [w_pop, endl, w_token array_end_data] s
               else if it = object_begin then
                 steps [w_token comma_data, endl, w_token object_begin_data, w_push w_object_1_state] s
               else if it = array_begin then
                 steps [w_token comma_data, endl, w_token array_begin_data, w_push w_array_1_state] s
               else if it = string_value then steps [w_token comma_data, endl, w_string data] s
               else if it = integer_value then steps [w_token comma_data, endl, w_token data] s
               else if it = real_value then steps [w_token comma_data, endl, w_token data] s
               else if it = null_value then steps [w_token comma_data, endl, w_token null_data] s
               else if it = true_value then steps [w_token comma_data, endl, w_token true_data] s
               else if it = false_value then steps [w_token comma_data, endl, w_token false_data] s
               else w_raise ''array end of value expected'' s))"

text \<open>
  The callback of \<^verbatim>\<open>main.cpp\<close>: every item and its payload go to the writer, the row and
  the column are dropped.
\<close>

definition cb_write :: "wconf callback" where
  "cb_write it data row column s = w_write it data s"

text \<open>Writing a recorded stream of items and payloads, in order.\<close>

fun write_all :: "(item \<times> string) list \<Rightarrow> wconf \<Rightarrow> wconf result" where
  "write_all [] s = Inr s"
| "write_all ((it, data) # xs) s =
     (case w_write it data s of Inl x \<Rightarrow> Inl x | Inr s' \<Rightarrow> write_all xs s')"

text \<open>
  What the callback has accumulated when feeding stops, with or without an exception:
  the recorded items for \<open>cb_log\<close>, the writer and its output for \<open>cb_write\<close>.
\<close>

definition user_of :: "(exception \<times> 'u conf) + 'u conf \<Rightarrow> 'u" where
  "user_of x = (case x of Inl (e, s) \<Rightarrow> snd s | Inr s \<Rightarrow> snd s)"

text \<open>The reader when feeding stops, with or without an exception.\<close>

definition reader_of :: "(exception \<times> 'u conf) + 'u conf \<Rightarrow> reader" where
  "reader_of x = (case x of Inl (e, s) \<Rightarrow> fst s | Inr s \<Rightarrow> fst s)"

text \<open>Two configurations with the same row and column.\<close>

definition same_cursor :: "'u conf \<Rightarrow> 'u conf \<Rightarrow> bool" where
  "same_cursor s s' = (m_row (fst s') = m_row (fst s) \<and> m_column (fst s') = m_column (fst s))"


text \<open>The cursor after a sequence of characters fed to a fresh reader.\<close>

definition cursor_after :: "string \<Rightarrow> size_t \<times> size_t" where
  "cursor_after cs = (1 + of_nat (count_list cs ch_n),
                      1 + of_nat (length (takeWhile (\<lambda>x. x \<noteq> ch_n) (rev cs))))"


section \<open>Hexadecimal digits and UTF-8\<close>

text \<open>The value \<^verbatim>\<open>unicode\<close> gives to \<^verbatim>\<open>digit\<close> for a hexadecimal digit.\<close>

definition hex_value :: "char \<Rightarrow> nat" where
  "hex_value input =
     (if 48 \<le> (of_char input :: nat) \<and> (of_char input :: nat) \<le> 57 then of_char input - 48
      else if 97 \<le> (of_char input :: nat) \<and> (of_char input :: nat) \<le> 102 then of_char input - 97 + 10
      else if 65 \<le> (of_char input :: nat) \<and> (of_char input :: nat) \<le> 70 then of_char input - 65 + 10
      else 0)"

text \<open>The number four hexadecimal digits denote, most significant digit first.\<close>

definition hex4 :: "char \<Rightarrow> char \<Rightarrow> char \<Rightarrow> char \<Rightarrow> nat" where
  "hex4 h1 h2 h3 h4 = 4096 * hex_value h1 + 256 * hex_value h2 + 16 * hex_value h3 + hex_value h4"

text \<open>
  UTF-8 as the standard defines it, for a code point below \<open>0x10000\<close>: one byte below
  \<open>0x80\<close>, two below \<open>0x800\<close>, three otherwise.
\<close>

definition utf8_encode :: "nat \<Rightarrow> nat list" where
  "utf8_encode n =
     (if n < 0x80 then [n]
      else if n < 0x800 then [0xC0 + n div 64, 0x80 + n mod 64]
      else [0xE0 + n div 4096, 0x80 + n div 64 mod 64, 0x80 + n mod 64])"

text \<open>
  The code point a sequence of one to three bytes encodes in UTF-8, if it is well formed:
  continuation bytes in range, no overlong form, no surrogate.
\<close>

definition utf8_decode :: "string \<Rightarrow> nat option" where
  "utf8_decode bs =
     (case map of_char bs of
        [b0] \<Rightarrow> if b0 < 0x80 then Some b0 else None
      | [b0, b1] \<Rightarrow>
          if 0xC0 \<le> b0 \<and> b0 < 0xE0 \<and> 0x80 \<le> b1 \<and> b1 < 0xC0
             \<and> 0x80 \<le> (b0 - 0xC0) * 64 + (b1 - 0x80)
          then Some ((b0 - 0xC0) * 64 + (b1 - 0x80)) else None
      | [b0, b1, b2] \<Rightarrow>
          if 0xE0 \<le> b0 \<and> b0 < 0xF0 \<and> 0x80 \<le> b1 \<and> b1 < 0xC0 \<and> 0x80 \<le> b2 \<and> b2 < 0xC0
             \<and> 0x800 \<le> (b0 - 0xE0) * 4096 + (b1 - 0x80) * 64 + (b2 - 0x80)
             \<and> \<not> (0xD800 \<le> (b0 - 0xE0) * 4096 + (b1 - 0x80) * 64 + (b2 - 0x80)
                  \<and> (b0 - 0xE0) * 4096 + (b1 - 0x80) * 64 + (b2 - 0x80) < 0xE000)
          then Some ((b0 - 0xE0) * 4096 + (b1 - 0x80) * 64 + (b2 - 0x80)) else None
      | _ \<Rightarrow> None)"

text \<open>The characters the writer escapes, and the letters that follow the backslash.\<close>

definition escapable :: string where
  "escapable = [dquote, backslash, CHR ''/'', ch_b, ch_f, ch_n, ch_r, ch_t]"

definition escape_letters :: string where
  "escape_letters = [dquote, backslash, CHR ''/'', CHR ''b'', CHR ''f'', CHR ''n'', CHR ''r'', CHR ''t'']"


section \<open>Nesting of the recorded items\<close>

text \<open>The kind of container a context of the reader's stack belongs to, as its Begin item.\<close>

definition container_of :: "token_state \<Rightarrow> item" where
  "container_of st =
     (if st = array_1_state \<or> st = array_v_state \<or> st = array_n_state then array_begin
      else object_begin)"

text \<open>
  The Begin items still open after a sequence of items, innermost first, starting from
  the open ones \<open>open\<close>: a Begin opens one, an End closes the innermost one, which must be
  of its kind (\<open>None\<close> otherwise), any other item changes nothing.
\<close>

fun nest :: "item list \<Rightarrow> item list \<Rightarrow> item list option" where
  "nest open [] = Some open"
| "nest open (it # its) =
     (if it = object_begin \<or> it = array_begin then nest (it # open) its
      else if it = object_end then
        (case open of [] \<Rightarrow> None | b # rest \<Rightarrow> if b = object_begin then nest rest its else None)
      else if it = array_end then
        (case open of [] \<Rightarrow> None | b # rest \<Rightarrow> if b = array_begin then nest rest its else None)
      else nest open its)"

text \<open>With an empty stack, the last item recorded (if any) is an End.\<close>

definition ended :: "(item \<times> string \<times> size_t \<times> size_t) list conf \<Rightarrow> bool" where
  "ended s = (m_token_state (fst s) \<noteq> [] \<or> snd s = []
              \<or> fst (last (snd s)) = object_end \<or> fst (last (snd s)) = array_end)"

section \<open>Well-formed documents\<close>

text \<open>
  The value a document denotes: the members of an object in the order of the text, with
  their keys, the elements of an array in order, and for a scalar its payload, which is the
  decoded content of a string and the literal text of a number.
\<close>

datatype json =
    JObject "(string \<times> json) list"
  | JArray "json list"
  | JString string
  | JInteger string
  | JReal string
  | JNull
  | JTrue
  | JFalse

text \<open>The items and payloads of a value, in document order.\<close>

fun items :: "json \<Rightarrow> (item \<times> string) list" where
  "items (JObject ms) =
     [(object_begin, [])] @ concat (map (\<lambda>m. (key, fst m) # items (snd m)) ms) @ [(object_end, [])]"
| "items (JArray vs) = [(array_begin, [])] @ concat (map items vs) @ [(array_end, [])]"
| "items (JString p) = [(string_value, p)]"
| "items (JInteger p) = [(integer_value, p)]"
| "items (JReal p) = [(real_value, p)]"
| "items JNull = [(null_value, [])]"
| "items JTrue = [(true_value, [])]"
| "items JFalse = [(false_value, [])]"

text \<open>The items and payloads of a recorded stream, without the rows and columns.\<close>

definition payloads :: "(item \<times> string \<times> size_t \<times> size_t) list \<Rightarrow> (item \<times> string) list" where
  "payloads evs = map (\<lambda>e. (fst e, fst (snd e))) evs"

text \<open>White space between tokens: any characters \<^verbatim>\<open>std::isspace\<close> accepts.\<close>

definition is_ws :: "string \<Rightarrow> bool" where
  "is_ws w = list_all isspace w"

text \<open>The letter after a backslash and the character it stands for.\<close>

definition escapes :: "(char \<times> char) list" where
  "escapes = [(dquote, dquote), (backslash, backslash), (CHR ''/'', CHR ''/''), (CHR ''b'', ch_b),
              (CHR ''f'', ch_f), (CHR ''n'', ch_n), (CHR ''r'', ch_r), (CHR ''t'', ch_t)]"

text \<open>
  \<open>string_body t p\<close>: the text \<open>t\<close> between two quotes denotes the payload \<open>p\<close>. A character
  other than a quote and a backslash stands for itself, a two-character escape for its
  character, and \<^verbatim>\<open>\uXXXX\<close> for the UTF-8 bytes of the code unit.
\<close>

inductive string_body :: "string \<Rightarrow> string \<Rightarrow> bool" where
  body_end: "string_body [] []"
| body_char: "c \<noteq> dquote \<Longrightarrow> c \<noteq> backslash \<Longrightarrow> string_body t p \<Longrightarrow> string_body (c # t) (c # p)"
| body_escape: "(x, c) \<in> set escapes \<Longrightarrow> string_body t p
     \<Longrightarrow> string_body (backslash # x # t) (c # p)"
| body_unicode: "isxdigit h1 \<Longrightarrow> isxdigit h2 \<Longrightarrow> isxdigit h3 \<Longrightarrow> isxdigit h4 \<Longrightarrow> string_body t p
     \<Longrightarrow> string_body (backslash # CHR ''u'' # h1 # h2 # h3 # h4 # t)
           (map char_of (utf8_encode (hex4 h1 h2 h3 h4)) @ p)"

text \<open>
  The texts of numbers, as in RFC 8259: an optional minus sign, no leading zero, digits
  after the point and in the exponent. A number with a fraction or an exponent is a real.
\<close>

definition digits :: "string \<Rightarrow> bool" where
  "digits ds = (ds \<noteq> [] \<and> list_all isdigit ds)"

definition nat_text :: "string \<Rightarrow> bool" where
  "nat_text s = (s = ''0'' \<or> (digits s \<and> hd s \<noteq> CHR ''0''))"

definition int_text :: "string \<Rightarrow> bool" where
  "int_text s = (nat_text s \<or> (\<exists>n. s = CHR ''-'' # n \<and> nat_text n))"

definition frac_text :: "string \<Rightarrow> bool" where
  "frac_text s = (\<exists>ds. s = CHR ''.'' # ds \<and> digits ds)"

definition exp_text :: "string \<Rightarrow> bool" where
  "exp_text s = (\<exists>c sgn ds. s = c # sgn @ ds \<and> (c = CHR ''e'' \<or> c = CHR ''E'')
                   \<and> (sgn = [] \<or> sgn = ''+'' \<or> sgn = ''-'') \<and> digits ds)"

definition real_text :: "string \<Rightarrow> bool" where
  "real_text s = (\<exists>i f e. s = i @ f @ e \<and> int_text i
                   \<and> ((frac_text f \<and> (e = [] \<or> exp_text e)) \<or> (f = [] \<and> exp_text e)))"

text \<open>
  \<open>json_text v t\<close>: the text \<open>t\<close> is a JSON text of the value \<open>v\<close>, with no white space
  around it; \<open>json_elements\<close> and \<open>json_members\<close> are the texts between the brackets of an
  array and the braces of an object that are not empty.
\<close>

inductive json_text :: "json \<Rightarrow> string \<Rightarrow> bool"
  and json_elements :: "json list \<Rightarrow> string \<Rightarrow> bool"
  and json_members :: "(string \<times> json) list \<Rightarrow> string \<Rightarrow> bool" where
  text_string: "string_body t p \<Longrightarrow> json_text (JString p) ([dquote] @ t @ [dquote])"
| text_integer: "int_text t \<Longrightarrow> json_text (JInteger t) t"
| text_real: "real_text t \<Longrightarrow> json_text (JReal t) t"
| text_null: "json_text JNull ''null''"
| text_true: "json_text JTrue ''true''"
| text_false: "json_text JFalse ''false''"
| text_array_empty: "is_ws w \<Longrightarrow> json_text (JArray []) (''['' @ w @ '']'')"
| text_array: "json_elements (v # vs) t \<Longrightarrow> json_text (JArray (v # vs)) (''['' @ t @ '']'')"
| text_object_empty: "is_ws w \<Longrightarrow> json_text (JObject []) (''{'' @ w @ ''}'')"
| text_object: "json_members (m # ms) t \<Longrightarrow> json_text (JObject (m # ms)) (''{'' @ t @ ''}'')"
| elements_last: "is_ws w1 \<Longrightarrow> json_text v t \<Longrightarrow> is_ws w2 \<Longrightarrow> json_elements [v] (w1 @ t @ w2)"
| elements_more: "is_ws w1 \<Longrightarrow> json_text v t \<Longrightarrow> is_ws w2 \<Longrightarrow> json_elements (v' # vs) ts
     \<Longrightarrow> json_elements (v # v' # vs) (w1 @ t @ w2 @ '','' @ ts)"
| members_last: "is_ws w1 \<Longrightarrow> string_body kt k \<Longrightarrow> is_ws w2 \<Longrightarrow> is_ws w3 \<Longrightarrow> json_text v t
     \<Longrightarrow> is_ws w4
     \<Longrightarrow> json_members [(k, v)] (w1 @ [dquote] @ kt @ [dquote] @ w2 @ '':'' @ w3 @ t @ w4)"
| members_more: "is_ws w1 \<Longrightarrow> string_body kt k \<Longrightarrow> is_ws w2 \<Longrightarrow> is_ws w3 \<Longrightarrow> json_text v t
     \<Longrightarrow> is_ws w4 \<Longrightarrow> json_members (m # ms) ts
     \<Longrightarrow> json_members ((k, v) # m # ms)
           (w1 @ [dquote] @ kt @ [dquote] @ w2 @ '':'' @ w3 @ t @ w4 @ '','' @ ts)"

text \<open>
  A well-formed document is an object or an array with white space around it: the first
  token the reader accepts is \<^verbatim>\<open>{\<close> or \<^verbatim>\<open>[\<close>, as in RFC 4627, where a JSON text is a
  serialized object or array. Inside, the grammar is that of RFC 8259, with every
  character \<^verbatim>\<open>std::isspace\<close> accepts as white space and every character other than a quote
  and a backslash allowed unescaped in a string.
\<close>

definition is_container :: "json \<Rightarrow> bool" where
  "is_container v = (case v of JObject ms \<Rightarrow> True | JArray vs \<Rightarrow> True | _ \<Rightarrow> False)"

definition document_text :: "json \<Rightarrow> string \<Rightarrow> bool" where
  "document_text v d = (is_container v
     \<and> (\<exists>w1 t w2. d = w1 @ t @ w2 \<and> is_ws w1 \<and> json_text v t \<and> is_ws w2))"

text \<open>
  What decides how the reader goes on: its stack, its lexer state and its literal buffer.
  \<open>run t a its b\<close>: from any reader at \<open>a\<close>, feeding \<open>t\<close> raises nothing, emits the items
  \<open>its\<close> and leaves the reader at \<open>b\<close>. \<open>runw\<close> is the same for a text that may end with a
  number, whose item is emitted on the delimiter that follows: fed before anything that
  starts with a delimiter, \<open>t\<close> brings the reader to \<open>b\<close> in front of that delimiter.
\<close>

type_synonym lexconf = "token_state list \<times> char_state \<times> string"

definition lexer_at :: "'u conf \<Rightarrow> lexconf \<Rightarrow> bool" where
  "lexer_at s a = (a = (m_token_state (fst s), m_char_state (fst s), m_data (fst s)))"

definition run :: "string \<Rightarrow> lexconf \<Rightarrow> (item \<times> string) list \<Rightarrow> lexconf \<Rightarrow> bool" where
  "run t a its b =
     (\<forall>s. lexer_at s a \<longrightarrow>
        (\<exists>s'. feed_all cb_log t s = Inr s' \<and> lexer_at s' b \<and> payloads (snd s') = payloads (snd s) @ its))"

definition delim :: "char \<Rightarrow> bool" where
  "delim c = (isspace c \<or> c = CHR '','' \<or> c = CHR '']'' \<or> c = CHR ''}'')"

definition runw :: "string \<Rightarrow> lexconf \<Rightarrow> (item \<times> string) list \<Rightarrow> lexconf \<Rightarrow> bool" where
  "runw t a its b =
     (\<forall>rest s. rest \<noteq> [] \<longrightarrow> delim (hd rest) \<longrightarrow> lexer_at s a \<longrightarrow>
        (\<exists>s'. feed_all cb_log (t @ rest) s = feed_all cb_log rest s' \<and> lexer_at s' b
            \<and> payloads (snd s') = payloads (snd s) @ its))"

text \<open>The stacks on which a value may start, and the stack after the value.\<close>

definition valpos :: "token_state list \<Rightarrow> bool" where
  "valpos stk = (case stk of [] \<Rightarrow> True
                 | st # _ \<Rightarrow> st = object_v_state \<or> st = array_1_state \<or> st = array_v_state)"

definition after_value :: "token_state list \<Rightarrow> token_state list" where
  "after_value stk = (case stk of [] \<Rightarrow> []
                 | st # rest \<Rightarrow> (if st = object_v_state then object_n_state else array_n_state) # rest)"

text \<open>The reader on the texts of a value, of the elements of an array, of the members of an object.\<close>

definition reads_value :: "json \<Rightarrow> string \<Rightarrow> bool" where
  "reads_value v t =
     (\<forall>stk. valpos stk \<longrightarrow>
        (is_container v \<longrightarrow>
           run t (stk, default_state, []) (items v) (after_value stk, default_state, []))
        \<and> (stk \<noteq> [] \<longrightarrow>
           runw t (stk, default_state, []) (items v) (after_value stk, default_state, [])))"

definition reads_elements :: "json list \<Rightarrow> string \<Rightarrow> bool" where
  "reads_elements vs t =
     (\<forall>stk st. st = array_1_state \<or> st = array_v_state \<longrightarrow>
        runw t (st # stk, default_state, []) (concat (map items vs))
          (array_n_state # stk, default_state, []))"

definition reads_members :: "(string \<times> json) list \<Rightarrow> string \<Rightarrow> bool" where
  "reads_members ms t =
     (\<forall>stk st. st = object_1_state \<or> st = object_2_state \<longrightarrow>
        runw t (st # stk, default_state, []) (concat (map (\<lambda>m. (key, fst m) # items (snd m)) ms))
          (object_n_state # stk, default_state, []))"

text \<open>The characters \<^verbatim>\<open>endl\<close> writes, and those \<^verbatim>\<open>string\<close> writes for a payload.\<close>

definition nl :: "writer \<Rightarrow> string" where
  "nl w = (if m_indent w \<noteq> 0
           then ch_n # replicate (unat (of_nat (length (m_state w)) * m_indent w)) CHR '' ''
           else [])"

definition quoted :: "string \<Rightarrow> string" where
  "quoted data = [dquote] @ concat (map encode data) @ [dquote]"

text \<open>
  \<open>writes its w t w'\<close>: from the writer \<open>w\<close>, writing the items \<open>its\<close> raises nothing,
  appends \<open>t\<close> to the output and leaves the writer \<open>w'\<close>.
\<close>

definition writes :: "(item \<times> string) list \<Rightarrow> writer \<Rightarrow> string \<Rightarrow> writer \<Rightarrow> bool" where
  "writes its w t w' = (\<forall>out. write_all its (w, out) = Inr (w', out @ t))"

text \<open>
  The stacks of the writer on which a value may be written, the stack after the value, and
  what the writer puts before the value: a comma after a previous element, a line break
  in an array.
\<close>

definition w_valpos :: "w_token_state list \<Rightarrow> bool" where
  "w_valpos stk = (case stk of [] \<Rightarrow> True
     | st # _ \<Rightarrow> st = w_object_v_state \<or> st = w_array_1_state \<or> st = w_array_n_state)"

definition w_after :: "w_token_state list \<Rightarrow> w_token_state list" where
  "w_after stk = (case stk of [] \<Rightarrow> []
     | st # rest \<Rightarrow> (if st = w_object_v_state then w_object_n_state else w_array_n_state) # rest)"

definition sep :: "w_token_state \<Rightarrow> string" where
  "sep st = (if st = w_array_n_state \<or> st = w_object_n_state then '','' else [])"

definition w_prefix :: "writer \<Rightarrow> string" where
  "w_prefix w = (case m_state w of [] \<Rightarrow> []
     | st # _ \<Rightarrow> if st = w_object_v_state then [] else sep st @ nl w)"

text \<open>The text the writer gives a scalar item.\<close>

definition scalar_text :: "item \<Rightarrow> string \<Rightarrow> string" where
  "scalar_text it data =
     (if it = string_value then quoted data
      else if it = null_value then ''null''
      else if it = true_value then ''true''
      else if it = false_value then ''false''
      else data)"

definition is_scalar :: "item \<Rightarrow> bool" where
  "is_scalar it = (it = string_value \<or> it = integer_value \<or> it = real_value \<or> it = null_value
                   \<or> it = true_value \<or> it = false_value)"

text \<open>The writer on the items of a value, of the elements of an array, of the members of an object.\<close>

definition writes_value :: "json \<Rightarrow> bool" where
  "writes_value v =
     (\<forall>w. w_valpos (m_state w) \<longrightarrow> (m_state w \<noteq> [] \<or> is_container v) \<longrightarrow>
        (\<exists>t. json_text v t
           \<and> writes (items v) w (w_prefix w @ t) (w\<lparr>m_state := w_after (m_state w)\<rparr>)))"

definition writes_elements :: "json list \<Rightarrow> bool" where
  "writes_elements vs =
     (\<forall>w st stk. m_state w = st # stk \<longrightarrow> st = w_array_1_state \<or> st = w_array_n_state \<longrightarrow>
        (\<exists>e. (\<forall>w2. is_ws w2 \<longrightarrow> json_elements vs (e @ w2))
           \<and> writes (concat (map items vs)) w (sep st @ e) (w\<lparr>m_state := w_array_n_state # stk\<rparr>)))"

definition writes_members :: "(string \<times> json) list \<Rightarrow> bool" where
  "writes_members ms =
     (\<forall>w st stk. m_state w = st # stk \<longrightarrow> st = w_object_1_state \<or> st = w_object_n_state \<longrightarrow>
        (\<exists>e. (\<forall>w4. is_ws w4 \<longrightarrow> json_members ms (e @ w4))
           \<and> writes (concat (map (\<lambda>m. (key, fst m) # items (snd m)) ms)) w (sep st @ e)
               (w\<lparr>m_state := w_object_n_state # stk\<rparr>)))"


section \<open>Concrete runs\<close>

text \<open>
  C2, as stated: the reader fed the 23 characters \<^verbatim>\<open>{"x":1,"y":[true,null]}\<close>, forwarding
  to a writer of indent width 0, writes the same 23 characters. It does not: the writer's
  \<^verbatim>\<open>colon_data\<close> is a colon and a space, whatever the indent width.
\<close>

theorem scenario_indent_0_not_verbatim:
  \<open>snd (user_of (feed_all cb_write ''{"x":1,"y":[true,null]}''
                   (reader_init, (indent 0 writer_init, []))))
     \<noteq> ''{"x":1,"y":[true,null]}''\<close>
  by code_simp

text \<open>
  C2, amended: the run raises nothing, leaves both stacks empty and writes
  \<^verbatim>\<open>{"x": 1,"y": [true,null]}\<close>: one space after each colon and no other inserted
  whitespace.
\<close>

theorem scenario_indent_0_output:
  \<open>feed_all cb_write ''{"x":1,"y":[true,null]}'' (reader_init, (indent 0 writer_init, []))
     = Inr (\<lparr>m_token_state = [], m_char_state = default_state, m_data = [],
             m_row = 1, m_column = 24, m_unicode = 0\<rparr>,
            \<lparr>m_indent = 0, m_state = []\<rparr>,
            ''{"x": 1,"y": [true,null]}'')\<close>
  by code_simp

text \<open>
  C4, as stated: \<^verbatim>\<open>0\<close> alone is accepted as a single IntegerValue item and \<^verbatim>\<open>0.5\<close> as a
  single RealValue item. Fed to a fresh reader they emit no item at all, and a delimiter
  after them raises the top-level error: a document starts with \<^verbatim>\<open>{\<close> or \<^verbatim>\<open>[\<close>.
\<close>

theorem bare_number_emits_no_item:
  \<open>map fst (user_of (feed_all cb_log ''0'' (reader_init, []))) \<noteq> [integer_value]
   \<and> map fst (user_of (feed_all cb_log ''0.5'' (reader_init, []))) \<noteq> [real_value]
   \<and> map fst (user_of (feed_all cb_log ''0 '' (reader_init, []))) \<noteq> [integer_value]
   \<and> map fst (user_of (feed_all cb_log ''0.5 '' (reader_init, []))) \<noteq> [real_value]\<close>
  by code_simp

text \<open>
  C4, amended: \<^verbatim>\<open>01\<close> raises a grammar error (at top level on the \<^verbatim>\<open>1\<close>; in an array,
  after the item for \<^verbatim>\<open>0\<close>, when the token \<^verbatim>\<open>1\<close> ends at the bracket), and \<^verbatim>\<open>0.5\<close> and
  \<^verbatim>\<open>0\<close> as the only element of an array are each accepted as a single RealValue and
  IntegerValue item. Fed alone to a fresh reader, \<^verbatim>\<open>0\<close> and \<^verbatim>\<open>0.5\<close> raise nothing and emit
  no item: the digits wait in the literal buffer.
\<close>

theorem leading_zero_runs:
  \<open>feed_all cb_log ''01'' (reader_init, [])
     = Inl (Json_exception ''"{" or "[" expected'' 1 2,
            \<lparr>m_token_state = [], m_char_state = integer_z_state, m_data = ''0'',
             m_row = 1, m_column = 2, m_unicode = 0\<rparr>, [])
   \<and> feed_all cb_log ''[01]'' (reader_init, [])
     = Inl (Json_exception ''"]" or "," expected'' 1 4,
            \<lparr>m_token_state = [array_n_state], m_char_state = integer_n_state, m_data = ''1'',
             m_row = 1, m_column = 4, m_unicode = 0\<rparr>,
            [(array_begin, [], 1, 1), (integer_value, ''0'', 1, 3)])
   \<and> feed_all cb_log ''[0.5]'' (reader_init, [])
     = Inr (\<lparr>m_token_state = [], m_char_state = default_state, m_data = [],
             m_row = 1, m_column = 6, m_unicode = 0\<rparr>,
            [(array_begin, [], 1, 1), (real_value, ''0.5'', 1, 5), (array_end, [], 1, 5)])
   \<and> feed_all cb_log ''[0]'' (reader_init, [])
     = Inr (\<lparr>m_token_state = [], m_char_state = default_state, m_data = [],
             m_row = 1, m_column = 4, m_unicode = 0\<rparr>,
            [(array_begin, [], 1, 1), (integer_value, ''0'', 1, 3), (array_end, [], 1, 3)])
   \<and> feed_all cb_log ''0'' (reader_init, [])
     = Inr (\<lparr>m_token_state = [], m_char_state = integer_z_state, m_data = ''0'',
             m_row = 1, m_column = 2, m_unicode = 0\<rparr>, [])
   \<and> feed_all cb_log ''0.5'' (reader_init, [])
     = Inr (\<lparr>m_token_state = [], m_char_state = fractional_n_state, m_data = ''0.5'',
             m_row = 1, m_column = 4, m_unicode = 0\<rparr>, [])\<close>
  by code_simp

text \<open>
  C6: \<^verbatim>\<open>{"a":}\<close> fed to a fresh reader raises "value expected" at row 1, column 6, the
  position of the closing brace, after the items for the brace and the key; \<^verbatim>\<open>{"a"\<close>
  raises nothing and leaves the reader inside the object with no End item emitted.
\<close>

theorem error_locality:
  \<open>feed_all cb_log ''{"a":}'' (reader_init, [])
     = Inl (Json_exception ''value expected'' 1 6,
            \<lparr>m_token_state = [object_n_state], m_char_state = default_state, m_data = [],
             m_row = 1, m_column = 6, m_unicode = 0\<rparr>,
            [(object_begin, [], 1, 1), (key, ''a'', 1, 4)])
   \<and> feed_all cb_log ''{"a"'' (reader_init, [])
     = Inr (\<lparr>m_token_state = [object_3_state], m_char_state = default_state, m_data = [],
             m_row = 1, m_column = 5, m_unicode = 0\<rparr>,
            [(object_begin, [], 1, 1), (key, ''a'', 1, 4)])\<close>
  by code_simp

section \<open>The cursor\<close>

declare feed.simps [simp del]

lemma seq_Inr_iff: "seq a b s = Inr y \<longleftrightarrow> (\<exists>t. a s = Inr t \<and> b t = Inr y)"
  by (auto simp: seq_def split: sum.splits)

lemma seq_Inl_iff: "seq a b s = Inl x \<longleftrightarrow> a s = Inl x \<or> (\<exists>t. a s = Inr t \<and> b t = Inl x)"
  by (auto simp: seq_def split: sum.splits)

lemma call_Inr: "call cb it s = Inr s' \<Longrightarrow> fst s' = (fst s)\<lparr>m_data := []\<rparr>"
  by (auto simp: call_def split: sum.splits prod.splits)

lemma call_Inl: "call cb it s = Inl (e, s') \<Longrightarrow> fst s' = fst s"
  by (auto simp: call_def split: sum.splits prod.splits)

lemma token_object_2_state_fields:
  assumes "token_object_2_state cb t s = Inr s'"
  shows "m_row (fst s') = m_row (fst s) \<and> m_column (fst s') = m_column (fst s)
       \<and> m_char_state (fst s') = m_char_state (fst s) \<and> m_unicode (fst s') = m_unicode (fst s)"
  using assms
  by (auto simp: token_object_2_state_def seq_Inr_iff upd_def jump_def raise_def
           split: if_splits dest!: call_Inr)

lemma token_array_v_state_fields:
  assumes "token_array_v_state cb t s = Inr s'"
  shows "m_row (fst s') = m_row (fst s) \<and> m_column (fst s') = m_column (fst s)
       \<and> m_char_state (fst s') = m_char_state (fst s) \<and> m_unicode (fst s') = m_unicode (fst s)"
  using assms
  by (auto simp: token_array_v_state_def seq_Inr_iff upd_def jump_def push_def raise_def
           split: if_splits dest!: call_Inr)

lemma token_fields:
  assumes "token cb t s = Inr s'"
  shows "m_row (fst s') = m_row (fst s) \<and> m_column (fst s') = m_column (fst s)
       \<and> m_char_state (fst s') = m_char_state (fst s) \<and> m_unicode (fst s') = m_unicode (fst s)"
proof (cases "m_token_state (fst s)")
  case Nil
  with assms show ?thesis
    by (auto simp: token_def seq_Inr_iff upd_def push_def raise_def split: if_splits dest!: call_Inr)
next
  case (Cons st rest)
  with assms show ?thesis
    by (cases st)
       (auto simp: token_def seq_Inr_iff upd_def push_def pop_def jump_def raise_def
             split: if_splits dest!: call_Inr token_object_2_state_fields token_array_v_state_fields)
qed

lemma token_object_2_state_throws:
  assumes "token_object_2_state cb t s = Inl (e, s')"
  shows "same_cursor s s'"
  using assms
  by (auto simp: token_object_2_state_def seq_Inl_iff upd_def jump_def raise_def same_cursor_def
           split: if_splits dest!: call_Inr call_Inl)

lemma token_array_v_state_throws:
  assumes "token_array_v_state cb t s = Inl (e, s')"
  shows "same_cursor s s'"
  using assms
  by (auto simp: token_array_v_state_def seq_Inl_iff seq_Inr_iff upd_def jump_def push_def raise_def
                 same_cursor_def
           split: if_splits dest!: call_Inr call_Inl)

lemma token_throws:
  assumes "token cb t s = Inl (e, s')"
  shows "same_cursor s s'"
proof (cases "m_token_state (fst s)")
  case Nil
  with assms show ?thesis
    by (auto simp: token_def seq_Inl_iff upd_def push_def raise_def same_cursor_def
             split: if_splits dest!: call_Inr call_Inl)
next
  case (Cons st rest)
  with assms show ?thesis
    by (cases st)
       (auto simp: token_def seq_Inl_iff seq_Inr_iff upd_def push_def pop_def jump_def raise_def
                   same_cursor_def
             split: if_splits
             dest!: call_Inr call_Inl token_object_2_state_throws token_array_v_state_throws)
qed

lemma unicode_fields:
  "unicode c s = Inr s' \<Longrightarrow> m_row (fst s') = m_row (fst s) \<and> m_column (fst s') = m_column (fst s)"
  by (auto simp: unicode_def upd_def bad_exception_def split: if_splits)

lemma unicode_throws: "unicode c s = Inl (e, s') \<Longrightarrow> s' = s"
  by (auto simp: unicode_def upd_def bad_exception_def split: if_splits)

lemma scan_cursor:
  assumes "scan cb c s = Inr (b, s')"
  shows "m_row (fst s') = m_row (fst s) \<and> m_column (fst s') = m_column (fst s)"
  using assms
  by (cases "m_char_state (fst s)")
     (auto simp: scan_def scan_integer_z_state_def seq_Inr_iff upd_def take_c_def take_unicode_def
                 next_state_def repeat_def raise_def
           split: if_splits dest!: token_fields unicode_fields)

lemma scan_throws:
  assumes "scan cb c s = Inl (e, s')"
  shows "same_cursor s s'"
  using assms
  by (cases "m_char_state (fst s)")
     (auto simp: scan_def scan_integer_z_state_def seq_Inl_iff seq_Inr_iff upd_def take_c_def
                 take_unicode_def next_state_def repeat_def raise_def same_cursor_def
           split: if_splits dest!: token_throws unicode_throws)

lemma feed_cursor:
  "feed cb c s = Inr s' \<Longrightarrow>
     m_row (fst s') = m_row (move c (fst s)) \<and> m_column (fst s') = m_column (move c (fst s))"
proof (induction cb c s rule: feed.induct)
  case (1 cb input s)
  from "1.prems" obtain b s1 where sc: "scan cb input s = Inr (b, s1)"
    by (subst (asm) feed.simps) (auto split: sum.splits)
  show ?case
  proof (cases b)
    case True
    with sc "1.prems" have "s' = (move input (fst s1), snd s1)"
      by (subst (asm) feed.simps) (simp add: upd_def)
    with scan_cursor[OF sc] show ?thesis by (simp add: move_def)
  next
    case False
    with sc "1.prems" have "feed cb input s1 = Inr s'"
      by (subst (asm) feed.simps) simp
    from "1.IH"[OF sc refl _ this] False scan_cursor[OF sc] show ?thesis
      by (simp add: move_def)
  qed
qed

lemma feed_throws:
  "feed cb c s = Inl (e, s') \<Longrightarrow> same_cursor s s'"
proof (induction cb c s rule: feed.induct)
  case (1 cb input s)
  show ?case
  proof (cases "scan cb input s")
    case (Inl x)
    with "1.prems" have "scan cb input s = Inl (e, s')"
      by (subst (asm) feed.simps) simp
    then show ?thesis by (rule scan_throws)
  next
    case (Inr y)
    obtain b s1 where y: "y = (b, s1)" by (cases y)
    show ?thesis
    proof (cases b)
      case True
      with Inr y "1.prems" show ?thesis
        by (subst (asm) feed.simps) (simp add: upd_def)
    next
      case False
      with Inr y "1.prems" have f: "feed cb input s1 = Inl (e, s')"
        by (subst (asm) feed.simps) simp
      from Inr y have sc: "scan cb input s = Inr (b, s1)" by simp
      from "1.IH"[OF sc refl _ f] False scan_cursor[OF sc] show ?thesis
        by (simp add: same_cursor_def)
    qed
  qed
qed

lemma feed_all_append:
  "feed_all cb (xs @ ys) s = (case feed_all cb xs s of Inl x \<Rightarrow> Inl x | Inr s' \<Rightarrow> feed_all cb ys s')"
  by (induction xs arbitrary: s) (auto split: sum.splits)

lemma feed_all_cursor:
  "feed_all cb cs (reader_init, u) = Inr t \<Longrightarrow> (m_row (fst t), m_column (fst t)) = cursor_after cs"
proof (induction cs arbitrary: t rule: rev_induct)
  case Nil
  then show ?case by (auto simp: reader_init_def cursor_after_def)
next
  case (snoc c cs)
  from snoc.prems obtain m where m: "feed_all cb cs (reader_init, u) = Inr m"
    and f: "feed cb c m = Inr t"
    by (auto simp: feed_all_append split: sum.splits)
  from snoc.IH[OF m] feed_cursor[OF f] show ?case
    by (simp add: move_def cursor_after_def)
qed

lemma feed_all_throws:
  "feed_all cb cs s = Inl (e, t) \<Longrightarrow>
     \<exists>ds c rest m. cs = ds @ c # rest \<and> feed_all cb ds s = Inr m \<and> feed cb c m = Inl (e, t)"
proof (induction cs arbitrary: s)
  case Nil
  then show ?case by simp
next
  case (Cons c cs)
  show ?case
  proof (cases "feed cb c s")
    case (Inl x)
    with Cons.prems have "feed cb c s = Inl (e, t)" by simp
    then have "c # cs = [] @ c # cs \<and> feed_all cb [] s = Inr s \<and> feed cb c s = Inl (e, t)"
      by simp
    then show ?thesis by blast
  next
    case (Inr s1)
    with Cons.prems have "feed_all cb cs s1 = Inl (e, t)" by simp
    from Cons.IH[OF this] obtain ds c' rest m where
      x: "cs = ds @ c' # rest" "feed_all cb ds s1 = Inr m" "feed cb c' m = Inl (e, t)"
      by blast
    with Inr have "c # cs = (c # ds) @ c' # rest \<and> feed_all cb (c # ds) s = Inr m
        \<and> feed cb c' m = Inl (e, t)"
      by simp
    then show ?thesis by blast
  qed
qed


text \<open>
  C3, as stated: after any character fed other than a newline the column is one more.
  Not when the call throws: \<^verbatim>\<open>operator()\<close> advances the cursor after its loop, which an
  exception leaves early, so the cursor stays on the character that raised it. A brace
  fed to a fresh reader raises at row 1, column 1 and leaves the column at 1.
\<close>

theorem throwing_call_keeps_cursor:
  \<open>feed cb_log (CHR ''}'') (reader_init, [])
     = Inl (Json_exception ''"{" or "[" expected'' 1 1,
            \<lparr>m_token_state = [], m_char_state = default_state, m_data = [],
             m_row = 1, m_column = 1, m_unicode = 0\<rparr>, [])
   \<and> m_column (reader_of (feed cb_log (CHR ''}'') (reader_init, []))) \<noteq> m_column reader_init + 1\<close>
  by code_simp


text \<open>
  C3, amended: row and column start at 1. A call of \<^verbatim>\<open>operator()\<close> that returns advances
  the cursor exactly once, whatever the number of rounds of its loop: to column 1 of the
  next row after a newline, to the next column after any other character, as increments
  of a \<^verbatim>\<open>std::size_t\<close> (so \<open>2 ^ 64 - 1\<close> is followed by 0). A call that throws leaves the
  cursor where it was. Hence, after a sequence of characters fed to a fresh reader, the
  row is 1 plus the number of newlines and the column 1 plus the number of characters
  since the last newline, counted over the whole sequence when nothing was thrown and
  over the characters before the one that raised otherwise.
\<close>

theorem cursor_per_call:
  "m_row reader_init = 1 \<and> m_column reader_init = 1
   \<and> (feed cb c s = Inr s' \<longrightarrow>
        (if c = ch_n then m_column (fst s') = 1 \<and> m_row (fst s') = m_row (fst s) + 1
         else m_column (fst s') = m_column (fst s) + 1 \<and> m_row (fst s') = m_row (fst s)))
   \<and> (feed cb c s = Inl (e, s') \<longrightarrow>
        m_column (fst s') = m_column (fst s) \<and> m_row (fst s') = m_row (fst s))
   \<and> (feed_all cb cs (reader_init, u) = Inr t \<longrightarrow>
        m_row (fst t) = 1 + of_nat (count_list cs ch_n)
        \<and> m_column (fst t) = 1 + of_nat (length (takeWhile (\<lambda>x. x \<noteq> ch_n) (rev cs))))
   \<and> (feed_all cb cs (reader_init, u) = Inl (e, t) \<longrightarrow>
        (\<exists>ds c rest. cs = ds @ c # rest
           \<and> m_row (fst t) = 1 + of_nat (count_list ds ch_n)
           \<and> m_column (fst t) = 1 + of_nat (length (takeWhile (\<lambda>x. x \<noteq> ch_n) (rev ds)))))"
proof (intro conjI impI)
  show "m_row reader_init = 1" "m_column reader_init = 1"
    by (simp_all add: reader_init_def)
next
  assume "feed cb c s = Inr s'"
  from feed_cursor[OF this]
  show "if c = ch_n then m_column (fst s') = 1 \<and> m_row (fst s') = m_row (fst s) + 1
         else m_column (fst s') = m_column (fst s) + 1 \<and> m_row (fst s') = m_row (fst s)"
    by (simp add: move_def)
next
  assume a: "feed cb c s = Inl (e, s')"
  from feed_throws[OF a] show "m_column (fst s') = m_column (fst s)" "m_row (fst s') = m_row (fst s)"
    by (simp_all add: same_cursor_def)
next
  assume a: "feed_all cb cs (reader_init, u) = Inr t"
  from feed_all_cursor[OF a]
  show "m_row (fst t) = 1 + of_nat (count_list cs ch_n)"
    "m_column (fst t) = 1 + of_nat (length (takeWhile (\<lambda>x. x \<noteq> ch_n) (rev cs)))"
    by (simp_all add: cursor_after_def)
next
  assume a: "feed_all cb cs (reader_init, u) = Inl (e, t)"
  from feed_all_throws[OF a] obtain ds c rest m where
    x: "cs = ds @ c # rest" "feed_all cb ds (reader_init, u) = Inr m" "feed cb c m = Inl (e, t)"
    by blast
  from feed_all_cursor[OF x(2)] feed_throws[OF x(3)]
  have "m_row (fst t) = 1 + of_nat (count_list ds ch_n)
      \<and> m_column (fst t) = 1 + of_nat (length (takeWhile (\<lambda>x. x \<noteq> ch_n) (rev ds)))"
    by (simp add: cursor_after_def same_cursor_def)
  with x(1) show "\<exists>ds c rest. cs = ds @ c # rest
           \<and> m_row (fst t) = 1 + of_nat (count_list ds ch_n)
           \<and> m_column (fst t) = 1 + of_nat (length (takeWhile (\<lambda>x. x \<noteq> ch_n) (rev ds)))"
    by blast
qed

theorem cursor_per_call_witness:
  \<open>feed cb_log (CHR '']'')
      (\<lparr>m_token_state = [array_1_state], m_char_state = integer_n_state, m_data = ''1'',
        m_row = 1, m_column = 3, m_unicode = 0\<rparr>, [(array_begin, [], 1, 1)])
     = Inr (\<lparr>m_token_state = [], m_char_state = default_state, m_data = [],
             m_row = 1, m_column = 4, m_unicode = 0\<rparr>,
            [(array_begin, [], 1, 1), (integer_value, ''1'', 1, 3), (array_end, [], 1, 3)])
   \<and> feed cb_log (CHR '' '')
      (\<lparr>m_token_state = [array_1_state], m_char_state = default_state, m_data = [],
        m_row = 1, m_column = 18446744073709551615, m_unicode = 0\<rparr>, [])
     = Inr (\<lparr>m_token_state = [array_1_state], m_char_state = default_state, m_data = [],
             m_row = 1, m_column = 0, m_unicode = 0\<rparr>, [])
   \<and> feed cb_log (CHR ''}'')
      (\<lparr>m_token_state = [array_1_state], m_char_state = integer_n_state, m_data = ''1'',
        m_row = 1, m_column = 3, m_unicode = 0\<rparr>, [(array_begin, [], 1, 1)])
     = Inl (Json_exception ''"]" or "," expected'' 1 3,
            \<lparr>m_token_state = [array_n_state], m_char_state = default_state, m_data = [],
             m_row = 1, m_column = 3, m_unicode = 0\<rparr>,
            [(array_begin, [], 1, 1), (integer_value, ''1'', 1, 3)])
   \<and> feed_all cb_log (''[1,'' @ [ch_n] @ ''2]'') (reader_init, [])
     = Inr (\<lparr>m_token_state = [], m_char_state = default_state, m_data = [],
             m_row = 2, m_column = 3, m_unicode = 0\<rparr>,
            [(array_begin, [], 1, 1), (integer_value, ''1'', 1, 3), (integer_value, ''2'', 2, 2),
             (array_end, [], 2, 2)])
   \<and> (1 + of_nat (count_list (''[1,'' @ [ch_n] @ ''2]'') ch_n) :: size_t) = 2
   \<and> (1 + of_nat (length (takeWhile (\<lambda>x. x \<noteq> ch_n) (rev (''[1,'' @ [ch_n] @ ''2]'')))) :: size_t) = 3
   \<and> feed_all cb_log (''[1,'' @ [ch_n] @ ''2}'') (reader_init, [])
     = Inl (Json_exception ''"]" or "," expected'' 2 2,
            \<lparr>m_token_state = [array_n_state], m_char_state = default_state, m_data = [],
             m_row = 2, m_column = 2, m_unicode = 0\<rparr>,
            [(array_begin, [], 1, 1), (integer_value, ''1'', 1, 3), (integer_value, ''2'', 2, 2)])\<close>
proof -
  have f: \<open>feed cb_log (CHR '']'')
      (\<lparr>m_token_state = [array_1_state], m_char_state = integer_n_state, m_data = ''1'',
        m_row = 1, m_column = 3, m_unicode = 0\<rparr>, [(array_begin, [], 1, 1)])
     = Inr (\<lparr>m_token_state = [], m_char_state = default_state, m_data = [],
             m_row = 1, m_column = 4, m_unicode = 0\<rparr>,
            [(array_begin, [], 1, 1), (integer_value, ''1'', 1, 3), (array_end, [], 1, 3)])\<close>
    by code_simp
  have w: \<open>feed cb_log (CHR '' '')
      (\<lparr>m_token_state = [array_1_state], m_char_state = default_state, m_data = [],
        m_row = 1, m_column = 18446744073709551615, m_unicode = 0\<rparr>, [])
     = Inr (\<lparr>m_token_state = [array_1_state], m_char_state = default_state, m_data = [],
             m_row = 1, m_column = 0, m_unicode = 0\<rparr>, [])\<close>
    by code_simp
  have h: \<open>feed cb_log (CHR ''}'')
      (\<lparr>m_token_state = [array_1_state], m_char_state = integer_n_state, m_data = ''1'',
        m_row = 1, m_column = 3, m_unicode = 0\<rparr>, [(array_begin, [], 1, 1)])
     = Inl (Json_exception ''"]" or "," expected'' 1 3,
            \<lparr>m_token_state = [array_n_state], m_char_state = default_state, m_data = [],
             m_row = 1, m_column = 3, m_unicode = 0\<rparr>,
            [(array_begin, [], 1, 1), (integer_value, ''1'', 1, 3)])\<close>
    by code_simp
  have g: \<open>feed_all cb_log (''[1,'' @ [ch_n] @ ''2]'') (reader_init, [])
     = Inr (\<lparr>m_token_state = [], m_char_state = default_state, m_data = [],
             m_row = 2, m_column = 3, m_unicode = 0\<rparr>,
            [(array_begin, [], 1, 1), (integer_value, ''1'', 1, 3), (integer_value, ''2'', 2, 2),
             (array_end, [], 2, 2)])\<close>
    by code_simp
  have k: \<open>feed_all cb_log (''[1,'' @ [ch_n] @ ''2}'') (reader_init, [])
     = Inl (Json_exception ''"]" or "," expected'' 2 2,
            \<lparr>m_token_state = [array_n_state], m_char_state = default_state, m_data = [],
             m_row = 2, m_column = 2, m_unicode = 0\<rparr>,
            [(array_begin, [], 1, 1), (integer_value, ''1'', 1, 3), (integer_value, ''2'', 2, 2)])\<close>
    by code_simp
  from cursor_per_call[of cb_log \<open>CHR '']''\<close> _ _ _ \<open>''[1,'' @ [ch_n] @ ''2]''\<close> \<open>[]\<close>] f g
  have \<open>(1 + of_nat (count_list (''[1,'' @ [ch_n] @ ''2]'') ch_n) :: size_t) = 2
   \<and> (1 + of_nat (length (takeWhile (\<lambda>x. x \<noteq> ch_n) (rev (''[1,'' @ [ch_n] @ ''2]'')))) :: size_t) = 3\<close>
    by simp
  with f w h g k show ?thesis by blast
qed

section \<open>Errors of the writer\<close>

lemma steps_Inr: "steps fs s \<noteq> Inl x"
  by (simp add: steps_def)

text \<open>
  C10: when \<^verbatim>\<open>write\<close> throws, the writer and the characters written are what they were
  before the call (every \<^verbatim>\<open>throw\<close> of \<^verbatim>\<open>write\<close> comes before any output and any change
  of the stack), and the exception is a \<^verbatim>\<open>json::exception\<close> with row 0 and column 0.
\<close>

theorem write_error_atomic:
  assumes "w_write it data s = Inl (e, s')"
  shows "s' = s \<and> (\<exists>what. e = Json_exception what 0 0)"
proof (cases "m_state (fst s)")
  case Nil
  with assms show ?thesis
    by (auto simp: w_write_def steps_def w_raise_def split: if_splits)
next
  case (Cons st rest)
  with assms show ?thesis
    by (cases st) (auto simp: w_write_def steps_def w_raise_def split: if_splits)
qed

theorem write_error_atomic_witness:
  \<open>w_write key ''k'' (\<lparr>m_indent = 2, m_state = [w_object_v_state]\<rparr>, ''{"a": '')
     = Inl (Json_exception ''value expected'' 0 0,
            (\<lparr>m_indent = 2, m_state = [w_object_v_state]\<rparr>, ''{"a": ''))\<close>
proof -
  obtain e s' where h:
    \<open>w_write key ''k'' (\<lparr>m_indent = 2, m_state = [w_object_v_state]\<rparr>, ''{"a": '') = Inl (e, s')\<close>
    by (simp add: w_write_def w_raise_def)
  from write_error_atomic[OF h] h show ?thesis
    by (simp add: w_write_def w_raise_def)
qed



section \<open>The stack of the reader and the items it emits\<close>

lemma call_log:
  "call cb_log it s = Inr ((fst s)\<lparr>m_data := []\<rparr>,
                          snd s @ [(it, m_data (fst s), m_row (fst s), m_column (fst s))])"
  by (simp add: call_def cb_log_def)

lemmas token_log_simps =
  token_def token_object_2_state_def token_array_v_state_def seq_def upd_def raise_def
  call_log push_def pop_def jump_def container_of_def

lemma token_nest:
  assumes "token cb_log t (r, evs) = Inr (r', evs')"
  shows "\<exists>new. evs' = evs @ new \<and> length new \<le> 1
           \<and> nest (map container_of (m_token_state r)) (map fst new)
               = Some (map container_of (m_token_state r'))"
proof (cases "m_token_state r")
  case Nil
  with assms show ?thesis
    by (cases t; auto simp add: token_log_simps)
next
  case (Cons st rest)
  with assms show ?thesis
    by (cases st; cases t; auto simp add: token_log_simps)
qed

lemma token_empty_after:
  assumes "token cb_log t (r, evs) = Inr (r', evs')" "m_token_state r' = []"
  shows "m_data r' = [] \<and> m_token_state r \<noteq> []
       \<and> (evs' = evs @ [(object_end, m_data r, m_row r, m_column r)]
          \<or> evs' = evs @ [(array_end, m_data r, m_row r, m_column r)])"
proof (cases "m_token_state r")
  case Nil
  with assms show ?thesis
    by (cases t; auto simp add: token_log_simps)
next
  case (Cons st rest)
  with assms show ?thesis
    by (cases st; cases t; auto simp add: token_log_simps)
qed

text \<open>A successful token leaves a stack that is not empty, unless it emitted an End.\<close>

lemma scan_cases:
  assumes "scan cb c s = Inr (b, s')"
  shows "(snd s' = snd s \<and> m_token_state (fst s') = m_token_state (fst s) \<and> b)
       \<or> (\<exists>t st. token cb t s = Inr st \<and> s' = ((fst st)\<lparr>m_char_state := default_state\<rparr>, snd st))"
  using assms
  by (cases "m_char_state (fst s)")
     (auto simp: scan_def scan_integer_z_state_def seq_Inr_iff upd_def take_c_def take_unicode_def
                 next_state_def repeat_def raise_def unicode_def bad_exception_def
           split: if_splits)

lemma feed_cases:
  assumes "feed cb c s = Inr s2"
  shows "(\<exists>s1. scan cb c s = Inr (True, s1) \<and> s2 = (move c (fst s1), snd s1))
       \<or> (\<exists>s0 s1. scan cb c s = Inr (False, s0) \<and> scan cb c s0 = Inr (True, s1)
                   \<and> s2 = (move c (fst s1), snd s1))"
proof -
  from assms obtain b s0 where sc: "scan cb c s = Inr (b, s0)"
    by (subst (asm) feed.simps) (auto split: sum.splits)
  show ?thesis
  proof (cases b)
    case True
    with sc assms show ?thesis
      by (subst (asm) feed.simps) (auto simp: upd_def)
  next
    case False
    with sc assms have f: "feed cb c s0 = Inr s2"
      by (subst (asm) feed.simps) simp
    from sc False scan_False[of cb c s s0] have d: "m_char_state (fst s0) = default_state" by simp
    from f obtain b' s1 where sc': "scan cb c s0 = Inr (b', s1)"
      by (subst (asm) feed.simps) (auto split: sum.splits)
    with d scan_False[of cb c s0 s1] have "b'" by (cases b') auto
    with sc' f have e: "s2 = (move c (fst s1), snd s1)"
      by (subst (asm) feed.simps) (auto simp: upd_def)
    from sc False have sc0: "scan cb c s = Inr (False, s0)" by simp
    from sc' \<open>b'\<close> have sc1: "scan cb c s0 = Inr (True, s1)" by simp
    from sc0 sc1 e show ?thesis by blast
  qed
qed

lemma nest_append:
  "nest opn (xs @ ys) = (case nest opn xs of None \<Rightarrow> None | Some opn' \<Rightarrow> nest opn' ys)"
  by (induction xs arbitrary: opn) (auto split: list.splits)

lemma scan_nest:
  assumes "scan cb_log c (r, evs) = Inr (b, r', evs')"
  shows "\<exists>new. evs' = evs @ new \<and> length new \<le> 1
           \<and> nest (map container_of (m_token_state r)) (map fst new)
               = Some (map container_of (m_token_state r'))"
proof -
  from scan_cases[OF assms] show ?thesis
  proof
    assume "snd (r', evs') = snd (r, evs) \<and> m_token_state (fst (r', evs')) = m_token_state (fst (r, evs)) \<and> b"
    then show ?thesis by simp
  next
    assume "\<exists>t st. token cb_log t (r, evs) = Inr st \<and> (r', evs') = ((fst st)\<lparr>m_char_state := default_state\<rparr>, snd st)"
    then obtain t rt where "token cb_log t (r, evs) = Inr (rt, evs')" "r' = rt\<lparr>m_char_state := default_state\<rparr>"
      by auto
    with token_nest[of t r evs rt evs'] show ?thesis by simp
  qed
qed

lemma feed_nest:
  assumes "feed cb_log c (r, evs) = Inr (r', evs')"
  shows "\<exists>new. evs' = evs @ new
           \<and> nest (map container_of (m_token_state r)) (map fst new)
               = Some (map container_of (m_token_state r'))"
proof -
  have mv: "m_token_state (move c x) = m_token_state x" for x
    by (simp add: move_def)
  from feed_cases[OF assms] show ?thesis
  proof
    assume "\<exists>s1. scan cb_log c (r, evs) = Inr (True, s1) \<and> (r', evs') = (move c (fst s1), snd s1)"
    then obtain r1 where "scan cb_log c (r, evs) = Inr (True, r1, evs')" "r' = move c r1"
      by auto
    with scan_nest[of c r evs True r1 evs'] mv show ?thesis by auto
  next
    assume "\<exists>s0 s1. scan cb_log c (r, evs) = Inr (False, s0) \<and> scan cb_log c s0 = Inr (True, s1)
                   \<and> (r', evs') = (move c (fst s1), snd s1)"
    then obtain r0 evs0 r1 where a: "scan cb_log c (r, evs) = Inr (False, r0, evs0)"
      and b: "scan cb_log c (r0, evs0) = Inr (True, r1, evs')" and c: "r' = move c r1"
      by auto
    from scan_nest[OF a] obtain n0 where n0: "evs0 = evs @ n0"
      "nest (map container_of (m_token_state r)) (map fst n0) = Some (map container_of (m_token_state r0))"
      by blast
    from scan_nest[OF b] obtain n1 where n1: "evs' = evs0 @ n1"
      "nest (map container_of (m_token_state r0)) (map fst n1) = Some (map container_of (m_token_state r1))"
      by blast
    from n0 n1 c mv have "evs' = evs @ (n0 @ n1)
       \<and> nest (map container_of (m_token_state r)) (map fst (n0 @ n1)) = Some (map container_of (m_token_state r'))"
      by (simp add: nest_append)
    then show ?thesis by blast
  qed
qed

lemma feed_all_nest:
  "feed_all cb_log cs (r, evs) = Inr (r', evs') \<Longrightarrow>
     \<exists>new. evs' = evs @ new
        \<and> nest (map container_of (m_token_state r)) (map fst new)
            = Some (map container_of (m_token_state r'))"
proof (induction cs arbitrary: r evs)
  case Nil
  then show ?case by simp
next
  case (Cons c cs)
  from Cons.prems obtain r1 evs1 where f: "feed cb_log c (r, evs) = Inr (r1, evs1)"
    and g: "feed_all cb_log cs (r1, evs1) = Inr (r', evs')"
    by (auto split: sum.splits)
  from feed_nest[OF f] obtain n0 where n0: "evs1 = evs @ n0"
    "nest (map container_of (m_token_state r)) (map fst n0) = Some (map container_of (m_token_state r1))"
    by blast
  from Cons.IH[OF g] obtain n1 where n1: "evs' = evs1 @ n1"
    "nest (map container_of (m_token_state r1)) (map fst n1) = Some (map container_of (m_token_state r'))"
    by blast
  from n0 n1 have "evs' = evs @ (n0 @ n1)
       \<and> nest (map container_of (m_token_state r)) (map fst (n0 @ n1)) = Some (map container_of (m_token_state r'))"
    by (simp add: nest_append)
  then show ?case by blast
qed

lemma token_ended: "token cb_log t s = Inr s' \<Longrightarrow> ended s'"
  using token_empty_after[of t "fst s" "snd s" "fst s'" "snd s'"]
  by (cases "m_token_state (fst s') = []") (auto simp: ended_def)

lemma scan_ended:
  assumes "scan cb_log c s = Inr (b, s')" "ended s"
  shows "ended s'"
proof -
  from scan_cases[OF assms(1)] show ?thesis
  proof
    assume "snd s' = snd s \<and> m_token_state (fst s') = m_token_state (fst s) \<and> b"
    with assms(2) show ?thesis by (simp add: ended_def)
  next
    assume "\<exists>t st. token cb_log t s = Inr st \<and> s' = ((fst st)\<lparr>m_char_state := default_state\<rparr>, snd st)"
    then obtain t st where t: "token cb_log t s = Inr st"
      and e: "s' = ((fst st)\<lparr>m_char_state := default_state\<rparr>, snd st)"
      by blast
    from token_ended[OF t] e show ?thesis by (simp add: ended_def)
  qed
qed

lemma feed_ended:
  assumes "feed cb_log c s = Inr s'" "ended s"
  shows "ended s'"
proof -
  have mv: "ended (move c (fst x), snd x) = ended x" for x
    by (simp add: ended_def move_def)
  from feed_cases[OF assms(1)] assms(2) scan_ended mv show ?thesis
    by metis
qed

lemma feed_all_ended:
  "feed_all cb_log cs s = Inr s' \<Longrightarrow> ended s \<Longrightarrow> ended s'"
  by (induction cs arbitrary: s) (auto split: sum.splits dest: feed_ended)

lemma nest_count:
  "nest opn its = Some opn' \<Longrightarrow>
     length opn + count_list its object_begin + count_list its array_begin
       = length opn' + count_list its object_end + count_list its array_end"
  by (induction opn its rule: nest.induct) (auto split: if_splits list.splits)

lemma nest_single:
  assumes "nest opn [it] = Some opn'"
  shows "length opn' =
           (if it = object_begin \<or> it = array_begin then length opn + 1
            else if it = object_end \<or> it = array_end then length opn - 1
            else length opn)
         \<and> (it = object_end \<or> it = array_end \<longrightarrow> opn \<noteq> [])"
  using assms by (auto split: if_splits list.splits)


text \<open>
  C8: a call of \<^verbatim>\<open>token\<close> that returns emits at most one item; a Begin item comes with
  exactly one more context on the stack, an End item with exactly one less, and the
  depth is unchanged otherwise. Hence, after any sequence of characters fed without an
  exception to a fresh reader, the stack is the list of the Begin items that no End has
  matched yet (each End closing the innermost open Begin, of its own kind), the number
  of Begin items is the depth plus the number of End items, and the stack is empty only
  when nothing was emitted yet or the last item is an End: with an empty stack every
  Begin has its one matching End.
\<close>

theorem stack_balance:
  "(token cb_log t (r0, evs0) = Inr (r1, evs1) \<longrightarrow>
      (evs1 = evs0 \<and> length (m_token_state r1) = length (m_token_state r0))
      \<or> (\<exists>e. evs1 = evs0 @ [e]
            \<and> length (m_token_state r1) =
                (if fst e = object_begin \<or> fst e = array_begin then length (m_token_state r0) + 1
                 else if fst e = object_end \<or> fst e = array_end then length (m_token_state r0) - 1
                 else length (m_token_state r0))
            \<and> (fst e = object_end \<or> fst e = array_end \<longrightarrow> m_token_state r0 \<noteq> [])))
   \<and> (feed_all cb_log cs (reader_init, []) = Inr (r, evs) \<longrightarrow>
        nest [] (map fst evs) = Some (map container_of (m_token_state r))
        \<and> count_list (map fst evs) object_begin + count_list (map fst evs) array_begin
            = length (m_token_state r)
              + count_list (map fst evs) object_end + count_list (map fst evs) array_end
        \<and> (m_token_state r = [] \<longrightarrow>
              evs = [] \<or> fst (last evs) = object_end \<or> fst (last evs) = array_end))"
proof (intro conjI impI)
  assume a: "token cb_log t (r0, evs0) = Inr (r1, evs1)"
  from token_nest[OF a] obtain new where n: "evs1 = evs0 @ new" "length new \<le> 1"
    "nest (map container_of (m_token_state r0)) (map fst new) = Some (map container_of (m_token_state r1))"
    by blast
  show "(evs1 = evs0 \<and> length (m_token_state r1) = length (m_token_state r0))
      \<or> (\<exists>e. evs1 = evs0 @ [e]
            \<and> length (m_token_state r1) =
                (if fst e = object_begin \<or> fst e = array_begin then length (m_token_state r0) + 1
                 else if fst e = object_end \<or> fst e = array_end then length (m_token_state r0) - 1
                 else length (m_token_state r0))
            \<and> (fst e = object_end \<or> fst e = array_end \<longrightarrow> m_token_state r0 \<noteq> []))"
  proof (cases new)
    case Nil
    with n have "evs1 = evs0" "map container_of (m_token_state r1) = map container_of (m_token_state r0)"
      by simp_all
    then have "evs1 = evs0 \<and> length (m_token_state r1) = length (m_token_state r0)"
      using map_eq_imp_length_eq by blast
    then show ?thesis by blast
  next
    case (Cons e rest)
    with n(2) have new: "new = [e]" by simp
    with n(3) have "nest (map container_of (m_token_state r0)) [fst e] = Some (map container_of (m_token_state r1))"
      by simp
    from nest_single[OF this] new n(1) show ?thesis by simp
  qed
next
  assume a: "feed_all cb_log cs (reader_init, []) = Inr (r, evs)"
  from feed_all_nest[OF a]
  show n: "nest [] (map fst evs) = Some (map container_of (m_token_state r))"
    by (simp add: reader_init_def)
  from nest_count[OF n]
  show "count_list (map fst evs) object_begin + count_list (map fst evs) array_begin
            = length (m_token_state r)
              + count_list (map fst evs) object_end + count_list (map fst evs) array_end"
    by simp
next
  assume a: "feed_all cb_log cs (reader_init, []) = Inr (r, evs)" and e: "m_token_state r = []"
  have "ended (reader_init, [])" by (simp add: ended_def)
  from feed_all_ended[OF a this] e
  show "evs = [] \<or> fst (last evs) = object_end \<or> fst (last evs) = array_end"
    by (simp add: ended_def)
qed

theorem stack_balance_witness:
  \<open>token cb_log object_end_token
      (\<lparr>m_token_state = [object_n_state, array_n_state], m_char_state = default_state, m_data = [],
        m_row = 1, m_column = 8, m_unicode = 0\<rparr>, [])
     = Inr (\<lparr>m_token_state = [array_n_state], m_char_state = default_state, m_data = [],
             m_row = 1, m_column = 8, m_unicode = 0\<rparr>, [(object_end, [], 1, 8)])
   \<and> feed_all cb_log ''{"x":1,"y":[true,null]}'' (reader_init, [])
     = Inr (\<lparr>m_token_state = [], m_char_state = default_state, m_data = [],
             m_row = 1, m_column = 24, m_unicode = 0\<rparr>,
            [(object_begin, [], 1, 1), (key, ''x'', 1, 4), (integer_value, ''1'', 1, 7),
             (key, ''y'', 1, 10), (array_begin, [], 1, 12), (true_value, [], 1, 16),
             (null_value, [], 1, 21), (array_end, [], 1, 22), (object_end, [], 1, 23)])
   \<and> nest [] [object_begin, key, integer_value, key, array_begin, true_value, null_value,
               array_end, object_end] = Some []\<close>
proof -
  have t: \<open>token cb_log object_end_token
      (\<lparr>m_token_state = [object_n_state, array_n_state], m_char_state = default_state, m_data = [],
        m_row = 1, m_column = 8, m_unicode = 0\<rparr>, [])
     = Inr (\<lparr>m_token_state = [array_n_state], m_char_state = default_state, m_data = [],
             m_row = 1, m_column = 8, m_unicode = 0\<rparr>, [(object_end, [], 1, 8)])\<close>
    by code_simp
  have f: \<open>feed_all cb_log ''{"x":1,"y":[true,null]}'' (reader_init, [])
     = Inr (\<lparr>m_token_state = [], m_char_state = default_state, m_data = [],
             m_row = 1, m_column = 24, m_unicode = 0\<rparr>,
            [(object_begin, [], 1, 1), (key, ''x'', 1, 4), (integer_value, ''1'', 1, 7),
             (key, ''y'', 1, 10), (array_begin, [], 1, 12), (true_value, [], 1, 16),
             (null_value, [], 1, 21), (array_end, [], 1, 22), (object_end, [], 1, 23)])\<close>
    by code_simp
  from stack_balance[of object_end_token _ \<open>[]\<close> _ _ \<open>''{"x":1,"y":[true,null]}''\<close>] t f
  show ?thesis by simp
qed


section \<open>After the end of a document\<close>

lemma token_value_stack:
  assumes "token cb t s = Inr s'" "t = integer_token \<or> t = real_token"
  shows "m_token_state (fst s') \<noteq> []"
proof (cases "m_token_state (fst s)")
  case Nil
  with assms show ?thesis
    by (auto simp: token_def raise_def)
next
  case (Cons st rest)
  with assms show ?thesis
    by (cases st)
       (auto simp: token_def token_object_2_state_def token_array_v_state_def seq_Inr_iff upd_def
                   jump_def raise_def dest!: call_Inr)
qed

lemma scan_False_stack:
  assumes "scan cb c s = Inr (False, s')"
  shows "m_token_state (fst s') \<noteq> []"
  using assms
  by (cases "m_char_state (fst s)")
     (auto simp: scan_def scan_integer_z_state_def seq_Inr_iff upd_def next_state_def repeat_def raise_def
           split: if_splits dest: token_value_stack)

lemma scan_emptied:
  assumes "scan cb_log c (r, evs) = Inr (True, r1, evs1)" "m_token_state r1 = []"
    "evs1 \<noteq> evs \<or> m_token_state r \<noteq> []"
  shows "m_char_state r1 = default_state \<and> m_data r1 = []
       \<and> evs1 \<noteq> [] \<and> (fst (last evs1) = object_end \<or> fst (last evs1) = array_end)"
proof -
  from scan_cases[OF assms(1)] assms(2,3)
  obtain t rt where t: "token cb_log t (r, evs) = Inr (rt, evs1)"
    and e: "r1 = rt\<lparr>m_char_state := default_state\<rparr>"
    by auto
  from e assms(2) have "m_token_state rt = []" by simp
  from token_empty_after[OF t this] e show ?thesis by auto
qed

lemma feed_emptied:
  assumes "feed cb_log c (r, evs) = Inr (r2, evs2)" "m_token_state r2 = []" "evs2 \<noteq> evs"
  shows "m_char_state r2 = default_state \<and> m_data r2 = []
       \<and> evs2 \<noteq> [] \<and> (fst (last evs2) = object_end \<or> fst (last evs2) = array_end)"
proof -
  from feed_cases[OF assms(1)] show ?thesis
  proof
    assume "\<exists>s1. scan cb_log c (r, evs) = Inr (True, s1) \<and> (r2, evs2) = (move c (fst s1), snd s1)"
    then obtain r1 where s: "scan cb_log c (r, evs) = Inr (True, r1, evs2)" and m: "r2 = move c r1"
      by auto
    from m assms(2) have "m_token_state r1 = []" by (simp add: move_def split: if_splits)
    from scan_emptied[OF s this] assms(3) m show ?thesis by (simp add: move_def)
  next
    assume "\<exists>s0 s1. scan cb_log c (r, evs) = Inr (False, s0) \<and> scan cb_log c s0 = Inr (True, s1)
                   \<and> (r2, evs2) = (move c (fst s1), snd s1)"
    then obtain r0 evs0 r1 where a: "scan cb_log c (r, evs) = Inr (False, r0, evs0)"
      and s: "scan cb_log c (r0, evs0) = Inr (True, r1, evs2)" and m: "r2 = move c r1"
      by auto
    from scan_False_stack[OF a] have ne: "m_token_state r0 \<noteq> []" by simp
    from m assms(2) have "m_token_state r1 = []" by (simp add: move_def split: if_splits)
    from scan_emptied[OF s this] ne m show ?thesis by (simp add: move_def)
  qed
qed

lemma feed_begin_on_empty:
  assumes "m_token_state r = []" "m_char_state r = default_state" "m_data r = []"
  shows "feed cb_log (CHR ''{'') (r, evs)
           = Inr (r\<lparr>m_token_state := [object_1_state], m_column := m_column r + 1\<rparr>,
                  evs @ [(object_begin, [], m_row r, m_column r)])"
    and "feed cb_log (CHR ''['') (r, evs)
           = Inr (r\<lparr>m_token_state := [array_1_state], m_column := m_column r + 1\<rparr>,
                  evs @ [(array_begin, [], m_row r, m_column r)])"
  using assms
  by (cases r; simp add: feed.simps scan_def isspace_def token_def seq_def call_log upd_def
                         push_def next_state_def move_def)+


text \<open>
  C9: when a call of \<^verbatim>\<open>operator()\<close> has emitted something and left the stack empty, what
  it emitted last is the End of a top-level container, and the reader is back in the
  state of a fresh one but for the cursor: fed \<^verbatim>\<open>{\<close> or \<^verbatim>\<open>[\<close> next, it raises nothing, emits
  the Begin item and opens the context of a second document.
\<close>

theorem new_document_after_end:
  assumes "feed cb_log c (r, evs) = Inr (r2, evs2)" "evs2 \<noteq> evs" "m_token_state r2 = []"
  shows "(fst (last evs2) = object_end \<or> fst (last evs2) = array_end)
       \<and> feed cb_log (CHR ''{'') (r2, evs2)
           = Inr (r2\<lparr>m_token_state := [object_1_state], m_column := m_column r2 + 1\<rparr>,
                  evs2 @ [(object_begin, [], m_row r2, m_column r2)])
       \<and> feed cb_log (CHR ''['') (r2, evs2)
           = Inr (r2\<lparr>m_token_state := [array_1_state], m_column := m_column r2 + 1\<rparr>,
                  evs2 @ [(array_begin, [], m_row r2, m_column r2)])"
  using feed_emptied[OF assms(1,3,2)] feed_begin_on_empty[OF assms(3), of evs2]
  by simp

theorem new_document_after_end_witness:
  \<open>feed cb_log (CHR '']'')
      (\<lparr>m_token_state = [array_1_state], m_char_state = default_state, m_data = [],
        m_row = 1, m_column = 2, m_unicode = 0\<rparr>, [(array_begin, [], 1, 1)])
     = Inr (\<lparr>m_token_state = [], m_char_state = default_state, m_data = [],
             m_row = 1, m_column = 3, m_unicode = 0\<rparr>,
            [(array_begin, [], 1, 1), (array_end, [], 1, 2)])
   \<and> feed cb_log (CHR ''{'')
      (\<lparr>m_token_state = [], m_char_state = default_state, m_data = [],
        m_row = 1, m_column = 3, m_unicode = 0\<rparr>,
       [(array_begin, [], 1, 1), (array_end, [], 1, 2)])
     = Inr (\<lparr>m_token_state = [object_1_state], m_char_state = default_state, m_data = [],
             m_row = 1, m_column = 4, m_unicode = 0\<rparr>,
            [(array_begin, [], 1, 1), (array_end, [], 1, 2), (object_begin, [], 1, 3)])
   \<and> feed_all cb_log ''[]{}'' (reader_init, [])
     = Inr (\<lparr>m_token_state = [], m_char_state = default_state, m_data = [],
             m_row = 1, m_column = 5, m_unicode = 0\<rparr>,
            [(array_begin, [], 1, 1), (array_end, [], 1, 2), (object_begin, [], 1, 3),
             (object_end, [], 1, 4)])\<close>
proof -
  have f: \<open>feed cb_log (CHR '']'')
      (\<lparr>m_token_state = [array_1_state], m_char_state = default_state, m_data = [],
        m_row = 1, m_column = 2, m_unicode = 0\<rparr>, [(array_begin, [], 1, 1)])
     = Inr (\<lparr>m_token_state = [], m_char_state = default_state, m_data = [],
             m_row = 1, m_column = 3, m_unicode = 0\<rparr>,
            [(array_begin, [], 1, 1), (array_end, [], 1, 2)])\<close>
    by code_simp
  have g: \<open>feed_all cb_log ''[]{}'' (reader_init, [])
     = Inr (\<lparr>m_token_state = [], m_char_state = default_state, m_data = [],
             m_row = 1, m_column = 5, m_unicode = 0\<rparr>,
            [(array_begin, [], 1, 1), (array_end, [], 1, 2), (object_begin, [], 1, 3),
             (object_end, [], 1, 4)])\<close>
    by code_simp
  from new_document_after_end[OF f] f g show ?thesis by simp
qed


section \<open>Unicode escapes\<close>

lemma or_add_nat:
  fixes x m :: nat
  assumes "x < 2 ^ k"
  shows "push_bit k m OR x = push_bit k m + x"
proof -
  from assms have t: "take_bit k x = x" by (simp add: take_bit_nat_eq_self)
  have b: "n < k" if "bit x n" for n
    using that t bit_take_bit_iff[of k x n] by simp
  have "push_bit k m AND x = 0"
    by (rule bit_eqI) (auto simp: bit_simps dest: b)
  then show ?thesis by (simp add: disjunctive_add_eq_or)
qed

lemma or_192: "y < 64 \<Longrightarrow> (192::nat) OR y = 192 + y"
  using or_add_nat[of y 6 3] by (simp add: push_bit_eq_mult)

lemma or_128: "y < 64 \<Longrightarrow> (128::nat) OR y = 128 + y"
  using or_add_nat[of y 6 2] by (simp add: push_bit_eq_mult)

lemma or_224: "y < 16 \<Longrightarrow> (224::nat) OR y = 224 + y"
  using or_add_nat[of y 4 14] by (simp add: push_bit_eq_mult)

lemma and_mask_nat: "(n::nat) AND mask k = n mod 2 ^ k"
  by (simp add: take_bit_eq_mask[symmetric] take_bit_eq_mod)

lemma and_63: "(n::nat) AND 63 = n mod 64"
proof -
  have "mask 6 = (63::nat)" by (simp add: mask_eq_exp_minus_1)
  with and_mask_nat[of n 6] show ?thesis by simp
qed

lemma and_31: "(n::nat) AND 31 = n mod 32"
proof -
  have "mask 5 = (31::nat)" by (simp add: mask_eq_exp_minus_1)
  with and_mask_nat[of n 5] show ?thesis by simp
qed

lemma and_15: "(n::nat) AND 15 = n mod 16"
proof -
  have "mask 4 = (15::nat)" by (simp add: mask_eq_exp_minus_1)
  with and_mask_nat[of n 4] show ?thesis by simp
qed

lemma unat_byte2_0: "unat ((0xC0::16 word) OR (drop_bit 6 u AND 0x1F)) = 192 + (unat u div 64) mod 32"
  by (simp add: unsigned_or_eq unsigned_and_eq unat_drop_bit_eq drop_bit_eq_div unat_div and_31 or_192)

lemma unat_byte_low: "unat ((0x80::16 word) OR (u AND 0x3F)) = 128 + unat u mod 64"
  by (simp add: unsigned_or_eq unsigned_and_eq and_63 or_128)

lemma unat_byte3_0: "unat ((0xE0::16 word) OR (drop_bit 12 u AND 0x0F)) = 224 + (unat u div 4096) mod 16"
  by (simp add: unsigned_or_eq unsigned_and_eq unat_drop_bit_eq drop_bit_eq_div unat_div and_15 or_224)

lemma unat_byte3_1: "unat ((0x80::16 word) OR (drop_bit 6 u AND 0x3F)) = 128 + (unat u div 64) mod 64"
  by (simp add: unsigned_or_eq unsigned_and_eq unat_drop_bit_eq drop_bit_eq_div unat_div and_63 or_128)

lemma shift_or_digit:
  fixes w :: "16 word"
  assumes "d < 16"
  shows "push_bit 4 w OR of_nat d = w * 16 + of_nat d"
proof -
  have b: "n < 4" if "bit d n" for n
  proof -
    from assms have "take_bit 4 d = d" by (simp add: take_bit_nat_eq_self)
    with that bit_take_bit_iff[of 4 d n] show ?thesis by simp
  qed
  have "push_bit 4 w AND of_nat d = 0"
    by (rule bit_eqI) (auto simp: bit_simps dest: b)
  then show ?thesis by (simp add: disjunctive_add_eq_or push_bit_eq_mult)
qed

lemma four_digits:
  fixes w :: "16 word"
  assumes "a < 16" "b < 16" "c < 16" "d < 16"
  shows "push_bit 4 (push_bit 4 (push_bit 4 (push_bit 4 w OR of_nat a) OR of_nat b) OR of_nat c) OR of_nat d
         = of_nat (4096 * a + 256 * b + 16 * c + d)"
proof -
  have z: "(65536 :: 16 word) = 0" by simp
  have "push_bit 4 (push_bit 4 (push_bit 4 (push_bit 4 w OR of_nat a) OR of_nat b) OR of_nat c) OR of_nat d
        = (((w * 16 + of_nat a) * 16 + of_nat b) * 16 + of_nat c) * 16 + of_nat d"
    by (simp add: shift_or_digit assms)
  also have "\<dots> = w * 65536 + of_nat (4096 * a + 256 * b + 16 * c + d)"
    by (simp add: algebra_simps)
  finally show ?thesis by (simp add: z)
qed

lemma unicode_bytes_nat:
  "unicode_bytes u =
     (if unat u < 128 then [char_of (unat u)]
      else if unat u < 2048 then
        [char_of (192 + unat u div 64 mod 32), char_of (128 + unat u mod 64)]
      else
        [char_of (224 + unat u div 4096 mod 16), char_of (128 + unat u div 64 mod 64),
         char_of (128 + unat u mod 64)])"
  unfolding unicode_bytes_def unat_byte2_0 unat_byte_low unat_byte3_0 unat_byte3_1
  by (simp only: word_less_nat_alt) (simp add: unat_drop_bit_eq drop_bit_eq_div unat_div)

lemma unicode_bytes_utf8:
  assumes "n < 65536"
  shows "unicode_bytes (of_nat n) = map char_of (utf8_encode n)"
proof -
  from assms have u: "unat (of_nat n :: 16 word) = n"
    by (simp add: unat_of_nat)
  have d1: "n div 64 mod 32 = n div 64" if "n < 2048"
    using that by simp
  have d2: "n div 4096 mod 16 = n div 4096"
    using assms by simp
  show ?thesis
    unfolding unicode_bytes_nat u utf8_encode_def
    by (simp add: d1 d2)
qed

lemma utf8_decode_1: "a < 128 \<Longrightarrow> utf8_decode [char_of a] = Some a"
  by (simp add: utf8_decode_def)

lemma utf8_decode_2:
  assumes "a < 32" "b < 64" "128 \<le> a * 64 + b"
  shows "utf8_decode [char_of (192 + a), char_of (128 + b)] = Some (a * 64 + b)"
proof -
  from assms have "(192 + a) mod 256 = 192 + a" "(128 + b) mod 256 = 128 + b" by simp_all
  with assms show ?thesis by (simp add: utf8_decode_def)
qed

lemma utf8_decode_3:
  assumes "a < 16" "b < 64" "c < 64" "2048 \<le> a * 4096 + b * 64 + c"
    "a * 4096 + b * 64 + c < 55296 \<or> 57344 \<le> a * 4096 + b * 64 + c"
  shows "utf8_decode [char_of (224 + a), char_of (128 + b), char_of (128 + c)]
           = Some (a * 4096 + b * 64 + c)"
proof -
  from assms have "(224 + a) mod 256 = 224 + a" "(128 + b) mod 256 = 128 + b"
    "(128 + c) mod 256 = 128 + c" by simp_all
  with assms show ?thesis by (simp add: utf8_decode_def) linarith
qed

lemma utf8_decode_encode:
  assumes "n < 0xD800"
  shows "utf8_decode (map char_of (utf8_encode n)) = Some n"
proof -
  consider "n < 128" | "128 \<le> n" "n < 2048" | "2048 \<le> n" "n < 55296"
    using assms by linarith
  then show ?thesis
  proof cases
    case 1
    then show ?thesis by (simp add: utf8_encode_def utf8_decode_1)
  next
    case 2
    have e: "n div 64 * 64 + n mod 64 = n" by simp
    from 2 have "n div 64 < 32" by simp
    from utf8_decode_2[OF this, of "n mod 64"] 2 e show ?thesis
      by (simp add: utf8_encode_def)
  next
    case 3
    have "n mod 4096 = 64 * (n div 64 mod 64) + n mod 64"
      using mod_mult2_eq[of n 64 64] by simp
    moreover have "n div 4096 * 4096 + n mod 4096 = n" by simp
    ultimately have e: "n div 4096 * 4096 + n div 64 mod 64 * 64 + n mod 64 = n"
      by simp
    from 3 have "n div 4096 < 16" by simp
    from utf8_decode_3[OF this, of "n div 64 mod 64" "n mod 64"] 3 e show ?thesis
      by (simp add: utf8_encode_def)
  qed
qed

lemma hex_value_less: "hex_value h < 16"
  by (auto simp: hex_value_def)

lemma isxdigit_not_newline: "isxdigit h \<Longrightarrow> h \<noteq> ch_n"
  by (auto simp: isxdigit_def isdigit_def)

lemma unicode_hex:
  assumes "isxdigit h"
  shows "unicode h s = Inr ((fst s)\<lparr>m_unicode := push_bit 4 (m_unicode (fst s)) OR of_nat (hex_value h)\<rparr>, snd s)"
  using assms
  by (auto simp: unicode_def hex_value_def isxdigit_def isdigit_def upd_def)

lemma feed_unicode_1:
  assumes "m_char_state r = unicode_1_state" "isxdigit h"
  shows "feed cb h (r, u) = Inr (r\<lparr>m_unicode := push_bit 4 (m_unicode r) OR of_nat (hex_value h),
                                   m_char_state := unicode_2_state, m_column := m_column r + 1\<rparr>, u)"
  using assms isxdigit_not_newline[OF assms(2)]
  by (subst feed.simps) (simp add: scan_def seq_def unicode_hex next_state_def upd_def move_def)

lemma feed_unicode_2:
  assumes "m_char_state r = unicode_2_state" "isxdigit h"
  shows "feed cb h (r, u) = Inr (r\<lparr>m_unicode := push_bit 4 (m_unicode r) OR of_nat (hex_value h),
                                   m_char_state := unicode_3_state, m_column := m_column r + 1\<rparr>, u)"
  using assms isxdigit_not_newline[OF assms(2)]
  by (subst feed.simps) (simp add: scan_def seq_def unicode_hex next_state_def upd_def move_def)

lemma feed_unicode_3:
  assumes "m_char_state r = unicode_3_state" "isxdigit h"
  shows "feed cb h (r, u) = Inr (r\<lparr>m_unicode := push_bit 4 (m_unicode r) OR of_nat (hex_value h),
                                   m_char_state := unicode_4_state, m_column := m_column r + 1\<rparr>, u)"
  using assms isxdigit_not_newline[OF assms(2)]
  by (subst feed.simps) (simp add: scan_def seq_def unicode_hex next_state_def upd_def move_def)

lemma feed_unicode_4:
  assumes "m_char_state r = unicode_4_state" "isxdigit h"
  shows "feed cb h (r, u)
           = Inr (r\<lparr>m_data := m_data r @ unicode_bytes (push_bit 4 (m_unicode r) OR of_nat (hex_value h)),
                    m_unicode := 0, m_char_state := string_state, m_column := m_column r + 1\<rparr>, u)"
  using assms isxdigit_not_newline[OF assms(2)]
  by (subst feed.simps)
     (simp add: scan_def seq_def unicode_hex next_state_def upd_def move_def take_unicode_def)

lemma feed_all_hex4_raw:
  assumes "m_char_state r = unicode_1_state" "isxdigit h1" "isxdigit h2" "isxdigit h3" "isxdigit h4"
  shows "feed_all cb [h1, h2, h3, h4] (r, u)
           = Inr (r\<lparr>m_data := m_data r @ unicode_bytes
                      (push_bit 4 (push_bit 4 (push_bit 4 (push_bit 4 (m_unicode r)
                         OR of_nat (hex_value h1)) OR of_nat (hex_value h2))
                         OR of_nat (hex_value h3)) OR of_nat (hex_value h4)),
                    m_unicode := 0, m_char_state := string_state, m_column := m_column r + 4\<rparr>, u)"
  using assms
  by (simp add: feed_unicode_1 feed_unicode_2 feed_unicode_3 feed_unicode_4)

lemma feed_all_hex4:
  assumes "m_char_state r = unicode_1_state" "isxdigit h1" "isxdigit h2" "isxdigit h3" "isxdigit h4"
  shows "feed_all cb [h1, h2, h3, h4] (r, u)
           = Inr (r\<lparr>m_data := m_data r @ unicode_bytes (of_nat (hex4 h1 h2 h3 h4)),
                    m_unicode := 0, m_char_state := string_state, m_column := m_column r + 4\<rparr>, u)"
  unfolding feed_all_hex4_raw[OF assms]
    four_digits[OF hex_value_less hex_value_less hex_value_less hex_value_less] hex4_def
  by (rule refl)

lemma feed_string_backslash:
  assumes "m_char_state r = string_state"
  shows "feed cb backslash (r, u)
           = Inr (r\<lparr>m_char_state := escape_state, m_column := m_column r + 1\<rparr>, u)"
  using assms
  by (subst feed.simps) (simp add: scan_def next_state_def upd_def move_def)

lemma feed_escape_u:
  assumes "m_char_state r = escape_state"
  shows "feed cb (CHR ''u'') (r, u)
           = Inr (r\<lparr>m_char_state := unicode_1_state, m_column := m_column r + 1\<rparr>, u)"
  using assms
  by (subst feed.simps) (simp add: scan_def next_state_def upd_def move_def)

lemma feed_all_unicode_escape:
  assumes "m_char_state r = string_state" "isxdigit h1" "isxdigit h2" "isxdigit h3" "isxdigit h4"
  shows "feed_all cb [backslash, CHR ''u'', h1, h2, h3, h4] (r, u)
           = Inr (r\<lparr>m_data := m_data r @ unicode_bytes (of_nat (hex4 h1 h2 h3 h4)),
                    m_unicode := 0, m_char_state := string_state, m_column := m_column r + 6\<rparr>, u)"
proof -
  let ?r1 = "r\<lparr>m_char_state := unicode_1_state, m_column := m_column r + 2\<rparr>"
  have a: "feed_all cb [backslash, CHR ''u''] (r, u) = Inr (?r1, u)"
    using assms(1) by (simp add: feed_string_backslash feed_escape_u)
  have c1: "m_char_state ?r1 = unicode_1_state" by simp
  have "feed_all cb ([backslash, CHR ''u''] @ [h1, h2, h3, h4]) (r, u)
          = feed_all cb [h1, h2, h3, h4] (?r1, u)"
    by (simp only: feed_all_append a sum.case)
  also note feed_all_hex4[OF c1 assms(2-5), of cb u]
  finally show ?thesis by simp
qed

lemma hex4_less: "hex4 h1 h2 h3 h4 < 65536"
  using hex_value_less[of h1] hex_value_less[of h2] hex_value_less[of h3] hex_value_less[of h4]
  by (simp add: hex4_def)

lemma length_utf8_encode:
  "length (utf8_encode n) = (if n < 0x80 then 1 else if n < 0x800 then 2 else 3)"
  by (simp add: utf8_encode_def)


text \<open>
  C7: from \<^verbatim>\<open>unicode_1_state\<close>, four hexadecimal digits leave the lexer in
  \<^verbatim>\<open>string_state\<close> with the accumulator back at 0 and the literal buffer extended by the
  bytes of the 16-bit value the four digits denote (whatever the accumulator held
  before): these bytes are its UTF-8 encoding, one byte below \<open>0x80\<close>, two below \<open>0x800\<close>,
  three otherwise. Two consecutive escapes append the bytes of the first value followed
  by the bytes of the second: nothing combines a surrogate pair.
\<close>

theorem unicode_escape:
  assumes "isxdigit h1" "isxdigit h2" "isxdigit h3" "isxdigit h4"
  shows "(m_char_state r = unicode_1_state \<longrightarrow>
           feed_all cb [h1, h2, h3, h4] (r, u)
             = Inr (r\<lparr>m_data := m_data r @ unicode_bytes (of_nat (hex4 h1 h2 h3 h4)),
                      m_unicode := 0, m_char_state := string_state,
                      m_column := m_column r + 4\<rparr>, u))
       \<and> unicode_bytes (of_nat (hex4 h1 h2 h3 h4)) = map char_of (utf8_encode (hex4 h1 h2 h3 h4))
       \<and> length (unicode_bytes (of_nat (hex4 h1 h2 h3 h4)))
           = (if hex4 h1 h2 h3 h4 < 0x80 then 1 else if hex4 h1 h2 h3 h4 < 0x800 then 2 else 3)
       \<and> (isxdigit l1 \<and> isxdigit l2 \<and> isxdigit l3 \<and> isxdigit l4 \<and> m_char_state r = string_state \<longrightarrow>
           feed_all cb [backslash, CHR ''u'', h1, h2, h3, h4, backslash, CHR ''u'', l1, l2, l3, l4] (r, u)
             = Inr (r\<lparr>m_data := m_data r @ unicode_bytes (of_nat (hex4 h1 h2 h3 h4))
                                 @ unicode_bytes (of_nat (hex4 l1 l2 l3 l4)),
                      m_unicode := 0, m_char_state := string_state,
                      m_column := m_column r + 12\<rparr>, u))"
proof (intro conjI impI)
  assume "m_char_state r = unicode_1_state"
  from feed_all_hex4[OF this assms]
  show "feed_all cb [h1, h2, h3, h4] (r, u)
             = Inr (r\<lparr>m_data := m_data r @ unicode_bytes (of_nat (hex4 h1 h2 h3 h4)),
                      m_unicode := 0, m_char_state := string_state,
                      m_column := m_column r + 4\<rparr>, u)" .
next
  show e: "unicode_bytes (of_nat (hex4 h1 h2 h3 h4)) = map char_of (utf8_encode (hex4 h1 h2 h3 h4))"
    by (rule unicode_bytes_utf8[OF hex4_less])
  show "length (unicode_bytes (of_nat (hex4 h1 h2 h3 h4)))
           = (if hex4 h1 h2 h3 h4 < 0x80 then 1 else if hex4 h1 h2 h3 h4 < 0x800 then 2 else 3)"
    unfolding e by (simp add: length_utf8_encode)
next
  assume a: "isxdigit l1 \<and> isxdigit l2 \<and> isxdigit l3 \<and> isxdigit l4 \<and> m_char_state r = string_state"
  let ?r1 = "r\<lparr>m_data := m_data r @ unicode_bytes (of_nat (hex4 h1 h2 h3 h4)),
                m_unicode := 0, m_char_state := string_state, m_column := m_column r + 6\<rparr>"
  from a have s: "m_char_state r = string_state" by simp
  have c1: "m_char_state ?r1 = string_state" by simp
  have "feed_all cb ([backslash, CHR ''u'', h1, h2, h3, h4] @ [backslash, CHR ''u'', l1, l2, l3, l4]) (r, u)
          = feed_all cb [backslash, CHR ''u'', l1, l2, l3, l4] (?r1, u)"
    by (simp only: feed_all_append feed_all_unicode_escape[OF s assms] sum.case)
  also from a have "\<dots> = Inr (?r1\<lparr>m_data := m_data ?r1 @ unicode_bytes (of_nat (hex4 l1 l2 l3 l4)),
                    m_unicode := 0, m_char_state := string_state, m_column := m_column ?r1 + 6\<rparr>, u)"
    by (intro feed_all_unicode_escape[OF c1]) simp_all
  finally show "feed_all cb [backslash, CHR ''u'', h1, h2, h3, h4, backslash, CHR ''u'', l1, l2, l3, l4] (r, u)
             = Inr (r\<lparr>m_data := m_data r @ unicode_bytes (of_nat (hex4 h1 h2 h3 h4))
                                 @ unicode_bytes (of_nat (hex4 l1 l2 l3 l4)),
                      m_unicode := 0, m_char_state := string_state,
                      m_column := m_column r + 12\<rparr>, u)"
    by simp
qed

theorem unicode_escape_witness:
  \<open>feed_all cb_log [backslash, CHR ''u'', CHR ''D'', CHR ''8'', CHR ''3'', CHR ''D'',
                     backslash, CHR ''u'', CHR ''D'', CHR ''E'', CHR ''0'', CHR ''0'']
      (\<lparr>m_token_state = [array_1_state], m_char_state = string_state, m_data = ''a'',
        m_row = 1, m_column = 4, m_unicode = 0\<rparr>, [(array_begin, [], 1, 1)])
     = Inr (\<lparr>m_token_state = [array_1_state], m_char_state = string_state,
             m_data = [CHR ''a'', CHR 0xED, CHR 0xA0, CHR 0xBD, CHR 0xED, CHR 0xB8, CHR 0x80],
             m_row = 1, m_column = 16, m_unicode = 0\<rparr>, [(array_begin, [], 1, 1)])
   \<and> hex4 (CHR ''D'') (CHR ''8'') (CHR ''3'') (CHR ''D'') = 0xD83D
   \<and> map of_char (unicode_bytes 0xD83D) = [0xED, 0xA0, 0xBD :: nat]
   \<and> utf8_encode 0xD83D = [0xED, 0xA0, 0xBD]\<close>
proof -
  have x: "isxdigit (CHR ''D'')" "isxdigit (CHR ''8'')" "isxdigit (CHR ''3'')"
    "isxdigit (CHR ''E'')" "isxdigit (CHR ''0'')"
    by (simp_all add: isxdigit_def isdigit_def)
  have h: "hex4 (CHR ''D'') (CHR ''8'') (CHR ''3'') (CHR ''D'') = 0xD83D"
    by (simp add: hex4_def hex_value_def)
  have e: "utf8_encode 0xD83D = [0xED, 0xA0, 0xBD]"
    by (simp add: utf8_encode_def)
  have f: \<open>feed_all cb_log [backslash, CHR ''u'', CHR ''D'', CHR ''8'', CHR ''3'', CHR ''D'',
                     backslash, CHR ''u'', CHR ''D'', CHR ''E'', CHR ''0'', CHR ''0'']
      (\<lparr>m_token_state = [array_1_state], m_char_state = string_state, m_data = ''a'',
        m_row = 1, m_column = 4, m_unicode = 0\<rparr>, [(array_begin, [], 1, 1)])
     = Inr (\<lparr>m_token_state = [array_1_state], m_char_state = string_state,
             m_data = [CHR ''a'', CHR 0xED, CHR 0xA0, CHR 0xBD, CHR 0xED, CHR 0xB8, CHR 0x80],
             m_row = 1, m_column = 16, m_unicode = 0\<rparr>, [(array_begin, [], 1, 1)])\<close>
    by code_simp
  from unicode_escape[OF x(1) x(2) x(3) x(1), of _ cb_log]
  have "unicode_bytes (of_nat (hex4 (CHR ''D'') (CHR ''8'') (CHR ''3'') (CHR ''D'')))
          = map char_of (utf8_encode (hex4 (CHR ''D'') (CHR ''8'') (CHR ''3'') (CHR ''D'')))"
    by blast
  then have "map of_char (unicode_bytes 0xD83D) = [0xED, 0xA0, 0xBD :: nat]"
    unfolding h e by simp
  with f h e show ?thesis by blast
qed

section \<open>Escapes of the writer read back\<close>

lemma encode_plain:
  "c \<notin> set escapable \<Longrightarrow> encode c = [c] \<and> c \<noteq> dquote \<and> c \<noteq> backslash \<and> c \<noteq> ch_n"
  by (simp add: escapable_def encode_def)

lemma encode_escapable:
  "c \<in> set escapable \<Longrightarrow> \<exists>x. x \<in> set escape_letters \<and> encode c = [backslash, x]"
  unfolding escapable_def escape_letters_def
  by (elim disjE | simp add: encode_def)+


lemma escape_letter_encoded:
  "x \<in> set escape_letters \<Longrightarrow> \<exists>c. c \<in> set escapable \<and> encode c = [backslash, x]"
proof -
  assume "x \<in> set escape_letters"
  then consider "x = dquote" | "x = backslash" | "x = CHR ''/''" | "x = CHR ''b''" | "x = CHR ''f''"
    | "x = CHR ''n''" | "x = CHR ''r''" | "x = CHR ''t''"
    by (auto simp: escape_letters_def)
  then show ?thesis
  proof cases
    case 1 then show ?thesis by (intro exI[of _ dquote]) (simp add: escapable_def encode_def)
  next
    case 2 then show ?thesis by (intro exI[of _ backslash]) (simp add: escapable_def encode_def)
  next
    case 3 then show ?thesis by (intro exI[of _ "CHR ''/''"]) (simp add: escapable_def encode_def)
  next
    case 4 then show ?thesis by (intro exI[of _ ch_b]) (simp add: escapable_def encode_def)
  next
    case 5 then show ?thesis by (intro exI[of _ ch_f]) (simp add: escapable_def encode_def)
  next
    case 6 then show ?thesis by (intro exI[of _ ch_n]) (simp add: escapable_def encode_def)
  next
    case 7 then show ?thesis by (intro exI[of _ ch_r]) (simp add: escapable_def encode_def)
  next
    case 8 then show ?thesis by (intro exI[of _ ch_t]) (simp add: escapable_def encode_def)
  qed
qed


lemma encode_two:
  assumes "encode c = [backslash, x]"
  shows "(c = dquote \<and> x = dquote) \<or> (c = backslash \<and> x = backslash)
       \<or> (c = CHR ''/'' \<and> x = CHR ''/'') \<or> (c = ch_b \<and> x = CHR ''b'')
       \<or> (c = ch_f \<and> x = CHR ''f'') \<or> (c = ch_n \<and> x = CHR ''n'')
       \<or> (c = ch_r \<and> x = CHR ''r'') \<or> (c = ch_t \<and> x = CHR ''t'')"
  using assms by (simp add: encode_def split: if_splits)

lemma feed_escape:
  assumes "m_char_state r = escape_state" "encode c = [backslash, x]"
  shows "feed cb x (r, u)
           = Inr (r\<lparr>m_data := m_data r @ [c], m_char_state := string_state,
                    m_column := m_column r + 1\<rparr>, u)"
  using encode_two[OF assms(2)] assms(1)
  by (elim disjE conjE; subst feed.simps)
     (simp_all add: scan_def seq_def upd_def take_c_def next_state_def move_def)

lemma feed_string_plain:
  assumes "m_char_state r = string_state" "c \<noteq> dquote" "c \<noteq> backslash"
  shows "feed cb c (r, u) = Inr (move c (r\<lparr>m_data := m_data r @ [c]\<rparr>), u)"
  using assms
  by (cases r, subst feed.simps) (simp add: scan_def seq_def upd_def take_c_def next_state_def)

lemma feed_all_encode_char:
  assumes "m_char_state r = string_state"
  shows "\<exists>r'. feed_all cb (encode c) (r, u) = Inr (r', u) \<and> m_data r' = m_data r @ [c]
            \<and> m_char_state r' = string_state \<and> m_token_state r' = m_token_state r
            \<and> m_unicode r' = m_unicode r"
proof (cases "c \<in> set escapable")
  case True
  from encode_escapable[OF this] obtain x where x: "encode c = [backslash, x]" by blast
  have "m_char_state (r\<lparr>m_char_state := escape_state, m_column := m_column r + 1\<rparr>) = escape_state"
    by simp
  from feed_escape[OF this x, of cb u] assms show ?thesis
    by (simp add: x feed_string_backslash)
next
  case False
  from encode_plain[OF this] assms show ?thesis
    by (simp add: feed_string_plain move_def)
qed

lemma feed_all_encode:
  "m_char_state r = string_state \<Longrightarrow>
     \<exists>r'. feed_all cb (concat (map encode data)) (r, u) = Inr (r', u) \<and> m_data r' = m_data r @ data
        \<and> m_char_state r' = string_state \<and> m_token_state r' = m_token_state r
        \<and> m_unicode r' = m_unicode r"
proof (induction data arbitrary: r)
  case Nil
  then show ?case by simp
next
  case (Cons c data)
  from feed_all_encode_char[OF Cons.prems, of cb c u] obtain r1 where
    r1: "feed_all cb (encode c) (r, u) = Inr (r1, u)" "m_data r1 = m_data r @ [c]"
      "m_char_state r1 = string_state" "m_token_state r1 = m_token_state r"
      "m_unicode r1 = m_unicode r"
    by blast
  from Cons.IH[OF r1(3)] obtain r2 where
    r2: "feed_all cb (concat (map encode data)) (r1, u) = Inr (r2, u)" "m_data r2 = m_data r1 @ data"
      "m_char_state r2 = string_state" "m_token_state r2 = m_token_state r1"
      "m_unicode r2 = m_unicode r1"
    by blast
  from r1 r2 show ?case
    by (simp add: feed_all_append)
qed

text \<open>What \<^verbatim>\<open>basic_writer::string\<close> writes, and how the reader reads it.\<close>

lemma feed_quote_open:
  assumes "m_char_state r = default_state"
  shows "feed cb dquote (r, u) = Inr (r\<lparr>m_char_state := string_state, m_column := m_column r + 1\<rparr>, u)"
  using assms
  by (subst feed.simps) (simp add: scan_def isspace_def next_state_def upd_def move_def)

lemma w_string_output:
  "w_string data (w, out) = (w, out @ (dquote # concat (map encode data)) @ [dquote])"
  by (simp add: w_string_def)

lemma w_string_escapable:
  "encode c = [backslash, x] \<Longrightarrow> w_string [c] (w, out) = (w, out @ [dquote, backslash, x, dquote])"
  by (simp add: w_string_def)

lemma read_w_string:
  assumes "m_char_state r = default_state" "m_data r = []"
  shows "\<exists>t r1. w_string data (w, out) = (w, out @ t @ [dquote])
           \<and> feed_all cb t (r, u) = Inr (r1, u) \<and> m_data r1 = data
           \<and> m_char_state r1 = string_state \<and> m_token_state r1 = m_token_state r"
proof -
  let ?r0 = "r\<lparr>m_char_state := string_state, m_column := m_column r + 1\<rparr>"
  have "m_char_state ?r0 = string_state" by simp
  from feed_all_encode[OF this, of cb data u] obtain r1 where
    r1: "feed_all cb (concat (map encode data)) (?r0, u) = Inr (r1, u)" "m_data r1 = m_data ?r0 @ data"
      "m_char_state r1 = string_state" "m_token_state r1 = m_token_state ?r0"
    by blast
  from r1 assms have "feed_all cb (dquote # concat (map encode data)) (r, u) = Inr (r1, u)
      \<and> m_data r1 = data \<and> m_char_state r1 = string_state \<and> m_token_state r1 = m_token_state r"
    by (simp add: feed_quote_open)
  with w_string_output[of data w out] show ?thesis by blast
qed

lemma feed_quote_close_value:
  assumes "m_char_state r = string_state" "m_token_state r = object_v_state # stk"
  shows "feed cb_log dquote (r, evs)
           = Inr (r\<lparr>m_token_state := object_n_state # stk, m_data := [],
                    m_char_state := default_state, m_column := m_column r + 1\<rparr>,
                  evs @ [(string_value, m_data r, m_row r, m_column r)])"
  using assms
  by (subst feed.simps)
     (simp add: scan_def token_def seq_def upd_def jump_def call_log next_state_def move_def)

lemma write_read_string_value:
  assumes "m_state w = w_object_v_state # ws" "m_token_state r = object_v_state # stk"
    "m_char_state r = default_state" "m_data r = []"
  shows "\<exists>w' t r' row col. w_write string_value data (w, out) = Inr (w', out @ t)
           \<and> feed_all cb_log t (r, evs) = Inr (r', evs @ [(string_value, data, row, col)])
           \<and> m_token_state r' = object_n_state # stk \<and> m_char_state r' = default_state
           \<and> m_data r' = []"
proof -
  from read_w_string[OF assms(3,4), of data w out cb_log evs] obtain t r1 where
    t: "w_string data (w, out) = (w, out @ t @ [dquote])"
      "feed_all cb_log t (r, evs) = Inr (r1, evs)" "m_data r1 = data"
      "m_char_state r1 = string_state" "m_token_state r1 = m_token_state r"
    by blast
  from assms(1) t(1) have w: "w_write string_value data (w, out)
       = Inr (w\<lparr>m_state := w_object_n_state # ws\<rparr>, out @ (t @ [dquote]))"
    by (simp add: w_write_def steps_def w_jump_def)
  from t(5) assms(2) have "m_token_state r1 = object_v_state # stk" by simp
  from feed_quote_close_value[OF t(4) this, of evs] t(2,3)
  have "feed_all cb_log (t @ [dquote]) (r, evs)
          = Inr (r1\<lparr>m_token_state := object_n_state # stk, m_data := [],
                    m_char_state := default_state, m_column := m_column r1 + 1\<rparr>,
                 evs @ [(string_value, data, m_row r1, m_column r1)])"
    by (simp add: feed_all_append)
  with w show ?thesis by fastforce
qed

text \<open>
  C5: for each of the eight characters that \<^verbatim>\<open>basic_writer::string\<close> escapes, the writer
  renders the one-character payload as a quote, a backslash, a letter and a quote, and the
  reader's \<^verbatim>\<open>escape_state\<close> decodes that letter to the same character; each of the eight
  letters is decoded to a character that \<^verbatim>\<open>basic_writer::string\<close> renders with that letter.
  Whatever the payload, the reader fed the text written by \<^verbatim>\<open>basic_writer::string\<close>,
  up to the closing quote, holds the payload in its buffer, and a StringValue written by
  \<^verbatim>\<open>basic_writer::write\<close> is read back as a StringValue item with the same payload.
  For a code point below the surrogate range, the bytes the reader produces for its
  escape are well-formed UTF-8 that decodes to the code point.
\<close>

theorem escape_symmetry:
  "(c \<in> set escapable \<longrightarrow>
      (\<exists>x. x \<in> set escape_letters
          \<and> w_string [c] (w, out) = (w, out @ [dquote, backslash, x, dquote])
          \<and> (m_char_state r = escape_state \<longrightarrow>
               feed cb x (r, u)
                 = Inr (r\<lparr>m_data := m_data r @ [c], m_char_state := string_state,
                          m_column := m_column r + 1\<rparr>, u))))
   \<and> (x \<in> set escape_letters \<longrightarrow>
      (\<exists>c. c \<in> set escapable
          \<and> w_string [c] (w, out) = (w, out @ [dquote, backslash, x, dquote])
          \<and> (m_char_state r = escape_state \<longrightarrow>
               feed cb x (r, u)
                 = Inr (r\<lparr>m_data := m_data r @ [c], m_char_state := string_state,
                          m_column := m_column r + 1\<rparr>, u))))
   \<and> (m_char_state r = default_state \<and> m_data r = [] \<longrightarrow>
      (\<exists>t r1. w_string data (w, out) = (w, out @ t @ [dquote])
          \<and> feed_all cb t (r, u) = Inr (r1, u) \<and> m_data r1 = data
          \<and> m_char_state r1 = string_state \<and> m_token_state r1 = m_token_state r))
   \<and> (m_state w = w_object_v_state # ws \<and> m_token_state r = object_v_state # stk
        \<and> m_char_state r = default_state \<and> m_data r = [] \<longrightarrow>
      (\<exists>w' t r' row col. w_write string_value data (w, out) = Inr (w', out @ t)
          \<and> feed_all cb_log t (r, evs) = Inr (r', evs @ [(string_value, data, row, col)])
          \<and> m_token_state r' = object_n_state # stk \<and> m_char_state r' = default_state
          \<and> m_data r' = []))
   \<and> (n < 0xD800 \<longrightarrow> utf8_decode (unicode_bytes (of_nat n)) = Some n)
   \<and> (isxdigit h1 \<and> isxdigit h2 \<and> isxdigit h3 \<and> isxdigit h4 \<and> hex4 h1 h2 h3 h4 < 0xD800
        \<and> m_char_state r = string_state \<longrightarrow>
      (\<exists>r' bs. feed_all cb [backslash, CHR ''u'', h1, h2, h3, h4] (r, u) = Inr (r', u)
           \<and> m_data r' = m_data r @ bs \<and> utf8_decode bs = Some (hex4 h1 h2 h3 h4)
           \<and> m_char_state r' = string_state))"
proof (intro conjI impI)
  assume "c \<in> set escapable"
  from encode_escapable[OF this] obtain x where x: "x \<in> set escape_letters" "encode c = [backslash, x]"
    by blast
  from x feed_escape[of r c x cb u] w_string_escapable[OF x(2), of w out]
  show "\<exists>x. x \<in> set escape_letters
          \<and> w_string [c] (w, out) = (w, out @ [dquote, backslash, x, dquote])
          \<and> (m_char_state r = escape_state \<longrightarrow>
               feed cb x (r, u)
                 = Inr (r\<lparr>m_data := m_data r @ [c], m_char_state := string_state,
                          m_column := m_column r + 1\<rparr>, u))"
    by blast
next
  assume "x \<in> set escape_letters"
  from escape_letter_encoded[OF this] obtain c where c: "c \<in> set escapable" "encode c = [backslash, x]"
    by blast
  from c feed_escape[of r c x cb u] w_string_escapable[OF c(2), of w out]
  show "\<exists>c. c \<in> set escapable
          \<and> w_string [c] (w, out) = (w, out @ [dquote, backslash, x, dquote])
          \<and> (m_char_state r = escape_state \<longrightarrow>
               feed cb x (r, u)
                 = Inr (r\<lparr>m_data := m_data r @ [c], m_char_state := string_state,
                          m_column := m_column r + 1\<rparr>, u))"
    by blast
next
  assume "m_char_state r = default_state \<and> m_data r = []"
  then have a: "m_char_state r = default_state" "m_data r = []" by simp_all
  from read_w_string[OF a]
  show "\<exists>t r1. w_string data (w, out) = (w, out @ t @ [dquote])
          \<and> feed_all cb t (r, u) = Inr (r1, u) \<and> m_data r1 = data
          \<and> m_char_state r1 = string_state \<and> m_token_state r1 = m_token_state r" .
next
  assume "m_state w = w_object_v_state # ws \<and> m_token_state r = object_v_state # stk
        \<and> m_char_state r = default_state \<and> m_data r = []"
  then have a: "m_state w = w_object_v_state # ws" "m_token_state r = object_v_state # stk"
    "m_char_state r = default_state" "m_data r = []" by simp_all
  from write_read_string_value[OF a]
  show "\<exists>w' t r' row col. w_write string_value data (w, out) = Inr (w', out @ t)
          \<and> feed_all cb_log t (r, evs) = Inr (r', evs @ [(string_value, data, row, col)])
          \<and> m_token_state r' = object_n_state # stk \<and> m_char_state r' = default_state
          \<and> m_data r' = []" .
next
  assume n: "n < 0xD800"
  then have "n < 65536" by simp
  from unicode_bytes_utf8[OF this] utf8_decode_encode[OF n]
  show "utf8_decode (unicode_bytes (of_nat n)) = Some n" by simp
next
  assume a: "isxdigit h1 \<and> isxdigit h2 \<and> isxdigit h3 \<and> isxdigit h4 \<and> hex4 h1 h2 h3 h4 < 0xD800
        \<and> m_char_state r = string_state"
  then have n: "hex4 h1 h2 h3 h4 < 0xD800" by simp
  from unicode_bytes_utf8[OF hex4_less] utf8_decode_encode[OF n]
  have d: "utf8_decode (unicode_bytes (of_nat (hex4 h1 h2 h3 h4))) = Some (hex4 h1 h2 h3 h4)"
    by simp
  from a feed_all_unicode_escape[of r h1 h2 h3 h4 cb u]
  have "feed_all cb [backslash, CHR ''u'', h1, h2, h3, h4] (r, u)
           = Inr (r\<lparr>m_data := m_data r @ unicode_bytes (of_nat (hex4 h1 h2 h3 h4)),
                    m_unicode := 0, m_char_state := string_state, m_column := m_column r + 6\<rparr>, u)"
    by simp
  with d show "\<exists>r' bs. feed_all cb [backslash, CHR ''u'', h1, h2, h3, h4] (r, u) = Inr (r', u)
           \<and> m_data r' = m_data r @ bs \<and> utf8_decode bs = Some (hex4 h1 h2 h3 h4)
           \<and> m_char_state r' = string_state"
    by simp
qed

theorem escape_symmetry_witness:
  \<open>ch_n \<in> set escapable \<and> CHR ''n'' \<in> set escape_letters
   \<and> w_string [ch_n] (writer_init, ''['') = (writer_init, ''["'' @ [backslash] @ ''n"'')
   \<and> feed cb_log (CHR ''n'')
       (\<lparr>m_token_state = [array_1_state], m_char_state = escape_state, m_data = ''a'',
         m_row = 1, m_column = 5, m_unicode = 0\<rparr>, [(array_begin, [], 1, 1)])
      = Inr (\<lparr>m_token_state = [array_1_state], m_char_state = string_state,
              m_data = [CHR ''a'', ch_n], m_row = 1, m_column = 6, m_unicode = 0\<rparr>,
             [(array_begin, [], 1, 1)])
   \<and> w_write string_value (''a/"'' @ [ch_t, backslash, CHR 0xE2, CHR 0x82, CHR 0xAC])
       (\<lparr>m_indent = 0, m_state = [w_object_v_state]\<rparr>, ''{"k": '')
      = Inr (\<lparr>m_indent = 0, m_state = [w_object_n_state]\<rparr>,
             ''{"k": '' @ ''"a'' @ [backslash] @ ''/'' @ [backslash] @ ''"'' @ [backslash] @ ''t''
               @ [backslash, backslash, CHR 0xE2, CHR 0x82, CHR 0xAC] @ ''"'')
   \<and> feed_all cb_log (''"a'' @ [backslash] @ ''/'' @ [backslash] @ ''"'' @ [backslash] @ ''t''
               @ [backslash, backslash, CHR 0xE2, CHR 0x82, CHR 0xAC] @ ''"'')
       (\<lparr>m_token_state = [object_v_state], m_char_state = default_state, m_data = [],
         m_row = 1, m_column = 7, m_unicode = 0\<rparr>, [(object_begin, [], 1, 1), (key, ''k'', 1, 4)])
      = Inr (\<lparr>m_token_state = [object_n_state], m_char_state = default_state, m_data = [],
              m_row = 1, m_column = 21, m_unicode = 0\<rparr>,
             [(object_begin, [], 1, 1), (key, ''k'', 1, 4),
              (string_value, ''a/"'' @ [ch_t, backslash, CHR 0xE2, CHR 0x82, CHR 0xAC], 1, 20)])
   \<and> (0x20AC::nat) < 0xD800 \<and> utf8_decode (unicode_bytes 0x20AC) = Some 0x20AC
   \<and> map of_char (unicode_bytes 0x20AC) = [0xE2, 0x82, 0xAC :: nat]\<close>
proof -
  have a: \<open>ch_n \<in> set escapable \<and> CHR ''n'' \<in> set escape_letters
     \<and> w_string [ch_n] (writer_init, ''['') = (writer_init, ''["'' @ [backslash] @ ''n"'')\<close>
    by (simp add: escapable_def escape_letters_def encode_def w_string_def)
  have b: \<open>feed cb_log (CHR ''n'')
       (\<lparr>m_token_state = [array_1_state], m_char_state = escape_state, m_data = ''a'',
         m_row = 1, m_column = 5, m_unicode = 0\<rparr>, [(array_begin, [], 1, 1)])
      = Inr (\<lparr>m_token_state = [array_1_state], m_char_state = string_state,
              m_data = [CHR ''a'', ch_n], m_row = 1, m_column = 6, m_unicode = 0\<rparr>,
             [(array_begin, [], 1, 1)])\<close>
    by code_simp
  have c: \<open>w_write string_value (''a/"'' @ [ch_t, backslash, CHR 0xE2, CHR 0x82, CHR 0xAC])
       (\<lparr>m_indent = 0, m_state = [w_object_v_state]\<rparr>, ''{"k": '')
      = Inr (\<lparr>m_indent = 0, m_state = [w_object_n_state]\<rparr>,
             ''{"k": '' @ ''"a'' @ [backslash] @ ''/'' @ [backslash] @ ''"'' @ [backslash] @ ''t''
               @ [backslash, backslash, CHR 0xE2, CHR 0x82, CHR 0xAC] @ ''"'')\<close>
    by code_simp
  have c': \<open>feed_all cb_log (''"a'' @ [backslash] @ ''/'' @ [backslash] @ ''"'' @ [backslash] @ ''t''
               @ [backslash, backslash, CHR 0xE2, CHR 0x82, CHR 0xAC] @ ''"'')
       (\<lparr>m_token_state = [object_v_state], m_char_state = default_state, m_data = [],
         m_row = 1, m_column = 7, m_unicode = 0\<rparr>, [(object_begin, [], 1, 1), (key, ''k'', 1, 4)])
      = Inr (\<lparr>m_token_state = [object_n_state], m_char_state = default_state, m_data = [],
              m_row = 1, m_column = 21, m_unicode = 0\<rparr>,
             [(object_begin, [], 1, 1), (key, ''k'', 1, 4),
              (string_value, ''a/"'' @ [ch_t, backslash, CHR 0xE2, CHR 0x82, CHR 0xAC], 1, 20)])\<close>
    by code_simp
  have d: "(0x20AC::nat) < 0xD800" by simp
  from escape_symmetry[where n = "0x20AC", THEN conjunct2, THEN conjunct2, THEN conjunct2,
      THEN conjunct2, THEN conjunct1] d
  have e: "utf8_decode (unicode_bytes 0x20AC) = Some 0x20AC" by simp
  have f: \<open>map of_char (unicode_bytes 0x20AC) = [0xE2, 0x82, 0xAC :: nat]\<close>
    by code_simp
  from a b c c' d e f show ?thesis by simp
qed


section \<open>The round trip\<close>

subsection \<open>Runs of the reader\<close>

lemma run_nil: "run [] a [] a"
  by (simp add: run_def)

lemma run_append:
  assumes "run t1 a i1 b" "run t2 b i2 c"
  shows "run (t1 @ t2) a (i1 @ i2) c"
  unfolding run_def
proof (intro allI impI)
  fix s :: "(item \<times> string \<times> size_t \<times> size_t) list conf"
  assume "lexer_at s a"
  with assms(1) obtain s1 where s1: "feed_all cb_log t1 s = Inr s1" "lexer_at s1 b"
    "payloads (snd s1) = payloads (snd s) @ i1"
    unfolding run_def by blast
  from assms(2) s1(2) obtain s2 where s2: "feed_all cb_log t2 s1 = Inr s2" "lexer_at s2 c"
    "payloads (snd s2) = payloads (snd s1) @ i2"
    unfolding run_def by blast
  from s1 s2 show "\<exists>s'. feed_all cb_log (t1 @ t2) s = Inr s' \<and> lexer_at s' c
            \<and> payloads (snd s') = payloads (snd s) @ i1 @ i2"
    by (simp add: feed_all_append)
qed

lemma run_runw:
  assumes "run t a its b"
  shows "runw t a its b"
  unfolding runw_def
proof (intro allI impI)
  fix rest and s :: "(item \<times> string \<times> size_t \<times> size_t) list conf"
  assume "lexer_at s a"
  with assms obtain s1 where s1: "feed_all cb_log t s = Inr s1" "lexer_at s1 b"
    "payloads (snd s1) = payloads (snd s) @ its"
    unfolding run_def by blast
  then show "\<exists>s'. feed_all cb_log (t @ rest) s = feed_all cb_log rest s' \<and> lexer_at s' b
            \<and> payloads (snd s') = payloads (snd s) @ its"
    by (intro exI[of _ s1]) (simp add: feed_all_append)
qed

lemma run_then_runw:
  assumes "run t1 a i1 b" "runw t2 b i2 c"
  shows "runw (t1 @ t2) a (i1 @ i2) c"
  unfolding runw_def
proof (intro allI impI)
  fix rest and s :: "(item \<times> string \<times> size_t \<times> size_t) list conf"
  assume r: "rest \<noteq> []" "delim (hd rest)" and "lexer_at s a"
  with assms(1) obtain s1 where s1: "feed_all cb_log t1 s = Inr s1" "lexer_at s1 b"
    "payloads (snd s1) = payloads (snd s) @ i1"
    unfolding run_def by blast
  from assms(2) r s1(2) obtain s2 where s2: "feed_all cb_log (t2 @ rest) s1 = feed_all cb_log rest s2"
    "lexer_at s2 c" "payloads (snd s2) = payloads (snd s1) @ i2"
    unfolding runw_def by blast
  from s1 s2 show "\<exists>s'. feed_all cb_log ((t1 @ t2) @ rest) s = feed_all cb_log rest s' \<and> lexer_at s' c
            \<and> payloads (snd s') = payloads (snd s) @ i1 @ i2"
    by (intro exI[of _ s2]) (simp add: feed_all_append)
qed

lemma runw_then_run:
  assumes "runw t1 a i1 b" "run t2 b i2 c" "t2 \<noteq> []" "delim (hd t2)"
  shows "run (t1 @ t2) a (i1 @ i2) c"
  unfolding run_def
proof (intro allI impI)
  fix s :: "(item \<times> string \<times> size_t \<times> size_t) list conf"
  assume "lexer_at s a"
  with assms(1,3,4) obtain s1 where s1: "feed_all cb_log (t1 @ t2) s = feed_all cb_log t2 s1" "lexer_at s1 b"
    "payloads (snd s1) = payloads (snd s) @ i1"
    unfolding runw_def by blast
  from assms(2) s1(2) obtain s2 where s2: "feed_all cb_log t2 s1 = Inr s2" "lexer_at s2 c"
    "payloads (snd s2) = payloads (snd s1) @ i2"
    unfolding run_def by blast
  from s1 s2 show "\<exists>s'. feed_all cb_log (t1 @ t2) s = Inr s' \<and> lexer_at s' c
            \<and> payloads (snd s') = payloads (snd s) @ i1 @ i2"
    by simp
qed

lemma runw_then_runw:
  assumes "runw t1 a i1 b" "runw t2 b i2 c" "t2 \<noteq> []" "delim (hd t2)"
  shows "runw (t1 @ t2) a (i1 @ i2) c"
  unfolding runw_def
proof (intro allI impI)
  fix rest and s :: "(item \<times> string \<times> size_t \<times> size_t) list conf"
  assume r: "rest \<noteq> []" "delim (hd rest)" and "lexer_at s a"
  from assms(3,4) have "t2 @ rest \<noteq> []" "delim (hd (t2 @ rest))" by simp_all
  with assms(1) \<open>lexer_at s a\<close> obtain s1 where
    s1: "feed_all cb_log (t1 @ t2 @ rest) s = feed_all cb_log (t2 @ rest) s1" "lexer_at s1 b"
    "payloads (snd s1) = payloads (snd s) @ i1"
    unfolding runw_def by blast
  from assms(2) r s1(2) obtain s2 where s2: "feed_all cb_log (t2 @ rest) s1 = feed_all cb_log rest s2"
    "lexer_at s2 c" "payloads (snd s2) = payloads (snd s1) @ i2"
    unfolding runw_def by blast
  from s1 s2 show "\<exists>s'. feed_all cb_log ((t1 @ t2) @ rest) s = feed_all cb_log rest s' \<and> lexer_at s' c
            \<and> payloads (snd s') = payloads (snd s) @ i1 @ i2"
    by (intro exI[of _ s2]) simp
qed

lemma run_charI:
  assumes "\<And>r evs. m_token_state r = stk \<Longrightarrow> m_char_state r = cs \<Longrightarrow> m_data r = d \<Longrightarrow>
     \<exists>r' evs'. feed cb_log c (r, evs) = Inr (r', evs') \<and> m_token_state r' = stk'
        \<and> m_char_state r' = cs' \<and> m_data r' = d' \<and> payloads evs' = payloads evs @ its"
  shows "run [c] (stk, cs, d) its (stk', cs', d')"
  unfolding run_def
proof (intro allI impI)
  fix s :: "(item \<times> string \<times> size_t \<times> size_t) list conf"
  assume "lexer_at s (stk, cs, d)"
  then have "m_token_state (fst s) = stk" "m_char_state (fst s) = cs" "m_data (fst s) = d"
    by (simp_all add: lexer_at_def)
  from assms[OF this, of "snd s"]
  show "\<exists>s'. feed_all cb_log [c] s = Inr s' \<and> lexer_at s' (stk', cs', d')
            \<and> payloads (snd s') = payloads (snd s) @ its"
    by (auto simp: lexer_at_def)
qed

subsection \<open>Single characters and literals\<close>

lemmas feed_log_simps =
  feed.simps scan_def scan_integer_z_state_def token_def token_object_2_state_def
  token_array_v_state_def seq_def upd_def raise_def call_log push_def pop_def jump_def
  take_c_def next_state_def repeat_def move_def payloads_def

lemma isdigit_other:
  assumes "isdigit c"
  shows "\<not> isspace c" "c \<noteq> CHR ''{''" "c \<noteq> CHR ''}''" "c \<noteq> CHR ''[''" "c \<noteq> CHR '']''"
    "c \<noteq> CHR '':''" "c \<noteq> CHR '',''" "c \<noteq> dquote" "c \<noteq> CHR ''-''" "c \<noteq> CHR ''n''"
    "c \<noteq> CHR ''t''" "c \<noteq> CHR ''f''" "c \<noteq> ch_n" "c \<noteq> CHR ''.''" "c \<noteq> CHR ''e''"
    "c \<noteq> CHR ''E''" "c \<noteq> CHR ''+''"
  using assms by (auto simp: isdigit_def isspace_def)

lemma delim_other:
  assumes "delim c"
  shows "\<not> isdigit c" "c \<noteq> CHR ''.''" "c \<noteq> CHR ''e''" "c \<noteq> CHR ''E''"
  using assms by (auto simp: delim_def isdigit_def isspace_def)

lemma run_ws_char: "isspace c \<Longrightarrow> run [c] (stk, default_state, d) [] (stk, default_state, d)"
  by (rule run_charI) (simp add: feed_log_simps)

lemma run_ws: "is_ws w \<Longrightarrow> run w (stk, default_state, d) [] (stk, default_state, d)"
proof (induction w)
  case Nil
  then show ?case by (simp add: run_nil)
next
  case (Cons c w)
  then have "run [c] (stk, default_state, d) [] (stk, default_state, d)"
    "run w (stk, default_state, d) [] (stk, default_state, d)"
    by (simp_all add: is_ws_def run_ws_char)
  from run_append[OF this] show ?case by simp
qed

lemma run_object_begin:
  assumes "valpos stk"
  shows "run ''{'' (stk, default_state, []) [(object_begin, [])]
           (object_1_state # after_value stk, default_state, [])"
proof (cases stk)
  case Nil
  show ?thesis unfolding Nil
    by (rule run_charI) (simp add: feed_log_simps isspace_def after_value_def)
next
  case (Cons st rest)
  with assms consider "st = object_v_state" | "st = array_1_state" | "st = array_v_state"
    by (auto simp: valpos_def)
  then show ?thesis unfolding Cons
    by cases (rule run_charI, simp add: feed_log_simps isspace_def after_value_def)+
qed

lemma run_array_begin:
  assumes "valpos stk"
  shows "run ''['' (stk, default_state, []) [(array_begin, [])]
           (array_1_state # after_value stk, default_state, [])"
proof (cases stk)
  case Nil
  show ?thesis unfolding Nil
    by (rule run_charI) (simp add: feed_log_simps isspace_def after_value_def)
next
  case (Cons st rest)
  with assms consider "st = object_v_state" | "st = array_1_state" | "st = array_v_state"
    by (auto simp: valpos_def)
  then show ?thesis unfolding Cons
    by cases (rule run_charI, simp add: feed_log_simps isspace_def after_value_def)+
qed

lemma run_object_end:
  assumes "st = object_1_state \<or> st = object_n_state"
  shows "run ''}'' (st # stk, default_state, []) [(object_end, [])] (stk, default_state, [])"
  using assms
  by (elim disjE) (rule run_charI, simp add: feed_log_simps isspace_def)+

lemma run_array_end:
  assumes "st = array_1_state \<or> st = array_n_state"
  shows "run '']'' (st # stk, default_state, []) [(array_end, [])] (stk, default_state, [])"
  using assms
  by (elim disjE) (rule run_charI, simp add: feed_log_simps isspace_def)+

lemma run_colon:
  "run '':'' (object_3_state # stk, default_state, []) [] (object_v_state # stk, default_state, [])"
  by (rule run_charI) (simp add: feed_log_simps isspace_def)

lemma run_comma_object:
  "run '','' (object_n_state # stk, default_state, []) [] (object_2_state # stk, default_state, [])"
  by (rule run_charI) (simp add: feed_log_simps isspace_def)

lemma run_comma_array:
  "run '','' (array_n_state # stk, default_state, []) [] (array_v_state # stk, default_state, [])"
  by (rule run_charI) (simp add: feed_log_simps isspace_def)

lemma run_quote_open:
  "run [dquote] (stk, default_state, []) [] (stk, string_state, [])"
  by (rule run_charI) (simp add: feed_log_simps isspace_def)

lemma run_quote_close_key:
  assumes "st = object_1_state \<or> st = object_2_state"
  shows "run [dquote] (st # stk, string_state, d) [(key, d)] (object_3_state # stk, default_state, [])"
  using assms
  by (elim disjE) (rule run_charI, simp add: feed_log_simps)+

lemma run_quote_close_value:
  assumes "valpos stk" "stk \<noteq> []"
  shows "run [dquote] (stk, string_state, d) [(string_value, d)] (after_value stk, default_state, [])"
proof -
  from assms obtain st rest where s: "stk = st # rest"
    and "st = object_v_state \<or> st = array_1_state \<or> st = array_v_state"
    by (cases stk) (auto simp: valpos_def)
  then show ?thesis unfolding s
    by (elim disjE) (rule run_charI, simp add: feed_log_simps after_value_def)+
qed

lemma runI:
  assumes "\<And>r evs. m_token_state r = stk \<Longrightarrow> m_char_state r = cs \<Longrightarrow> m_data r = d \<Longrightarrow>
     \<exists>r' evs'. feed_all cb_log t (r, evs) = Inr (r', evs') \<and> m_token_state r' = stk'
        \<and> m_char_state r' = cs' \<and> m_data r' = d' \<and> payloads evs' = payloads evs @ its"
  shows "run t (stk, cs, d) its (stk', cs', d')"
  unfolding run_def
proof (intro allI impI)
  fix s :: "(item \<times> string \<times> size_t \<times> size_t) list conf"
  assume "lexer_at s (stk, cs, d)"
  then have "m_token_state (fst s) = stk" "m_char_state (fst s) = cs" "m_data (fst s) = d"
    by (simp_all add: lexer_at_def)
  from assms[OF this, of "snd s"]
  show "\<exists>s'. feed_all cb_log t s = Inr s' \<and> lexer_at s' (stk', cs', d')
            \<and> payloads (snd s') = payloads (snd s) @ its"
    by (auto simp: lexer_at_def)
qed

lemma valpos_cases:
  assumes "valpos stk" "stk \<noteq> []"
  obtains rest where "stk = object_v_state # rest" | rest where "stk = array_1_state # rest"
    | rest where "stk = array_v_state # rest"
  using assms by (cases stk) (auto simp: valpos_def)

lemma run_null:
  assumes "valpos stk" "stk \<noteq> []"
  shows "run ''null'' (stk, default_state, []) [(null_value, [])] (after_value stk, default_state, [])"
  using assms
  by (cases rule: valpos_cases)
     (simp_all only:, (rule runI, simp add: feed_log_simps isspace_def after_value_def)+)

lemma run_true:
  assumes "valpos stk" "stk \<noteq> []"
  shows "run ''true'' (stk, default_state, []) [(true_value, [])] (after_value stk, default_state, [])"
  using assms
  by (cases rule: valpos_cases)
     (simp_all only:, (rule runI, simp add: feed_log_simps isspace_def after_value_def)+)

lemma run_false:
  assumes "valpos stk" "stk \<noteq> []"
  shows "run ''false'' (stk, default_state, []) [(false_value, [])] (after_value stk, default_state, [])"
  using assms
  by (cases rule: valpos_cases)
     (simp_all only:, (rule runI, simp add: feed_log_simps isspace_def after_value_def)+)

lemma run_body_char:
  assumes "c \<noteq> dquote" "c \<noteq> backslash"
  shows "run [c] (stk, string_state, d) [] (stk, string_state, d @ [c])"
  using assms by - (rule run_charI, simp add: feed_log_simps)

lemma escapes_encode: "(x, c) \<in> set escapes \<Longrightarrow> encode c = [backslash, x]"
  by (auto simp: escapes_def encode_def)

lemma run_body_escape:
  assumes "(x, c) \<in> set escapes"
  shows "run [backslash, x] (stk, string_state, d) [] (stk, string_state, d @ [c])"
  using encode_two[OF escapes_encode[OF assms]]
  by (elim disjE conjE) (simp_all only:, (rule runI, simp add: feed_log_simps)+)

lemma run_body_unicode:
  assumes "isxdigit h1" "isxdigit h2" "isxdigit h3" "isxdigit h4"
  shows "run [backslash, CHR ''u'', h1, h2, h3, h4] (stk, string_state, d) []
           (stk, string_state, d @ map char_of (utf8_encode (hex4 h1 h2 h3 h4)))"
proof (rule runI)
  fix r :: reader and evs :: "(item \<times> string \<times> size_t \<times> size_t) list"
  assume a: "m_token_state r = stk" "m_char_state r = string_state" "m_data r = d"
  from feed_all_unicode_escape[OF a(2) assms, of cb_log evs] a
    unicode_bytes_utf8[OF hex4_less, of h1 h2 h3 h4]
  show "\<exists>r' evs'. feed_all cb_log [backslash, CHR ''u'', h1, h2, h3, h4] (r, evs) = Inr (r', evs')
          \<and> m_token_state r' = stk \<and> m_char_state r' = string_state
          \<and> m_data r' = d @ map char_of (utf8_encode (hex4 h1 h2 h3 h4))
          \<and> payloads evs' = payloads evs @ []"
    by simp
qed

lemma run_string_body:
  "string_body t p \<Longrightarrow> run t (stk, string_state, d) [] (stk, string_state, d @ p)"
proof (induction t p arbitrary: d rule: string_body.induct)
  case body_end
  show ?case by (simp add: run_nil)
next
  case (body_char c t p)
  from run_append[OF run_body_char[OF body_char.hyps(1,2)] body_char.IH]
  show ?case by simp
next
  case (body_escape c x t p)
  from run_append[OF run_body_escape[OF body_escape.hyps(1)] body_escape.IH]
  show ?case by simp
next
  case (body_unicode h1 h2 h3 h4 t p)
  from run_append[OF run_body_unicode[OF body_unicode.hyps(1-4)] body_unicode.IH]
  show ?case by simp
qed

subsection \<open>Numbers\<close>

lemma run_digit_loop:
  assumes "isdigit c" "st = integer_n_state \<or> st = fractional_n_state \<or> st = exponent_n_state"
  shows "run [c] (stk, st, d) [] (stk, st, d @ [c])"
  using assms(2) isdigit_other[OF assms(1)] assms(1)
  by (elim disjE) (simp_all only:, (rule run_charI, simp add: feed_log_simps)+)

lemma run_digits_loop:
  assumes "st = integer_n_state \<or> st = fractional_n_state \<or> st = exponent_n_state"
  shows "list_all isdigit ds \<Longrightarrow> run ds (stk, st, d) [] (stk, st, d @ ds)"
proof (induction ds arbitrary: d)
  case Nil
  show ?case by (simp add: run_nil)
next
  case (Cons c ds)
  then have "isdigit c" "list_all isdigit ds" by simp_all
  from run_append[OF run_digit_loop[OF this(1) assms] Cons.IH[OF this(2)]]
  show ?case by simp
qed

lemma run_first_digit:
  assumes "isdigit c" "st = default_state \<or> st = integer_1_state"
  shows "run [c] (stk, st, d) []
           (stk, if c = CHR ''0'' then integer_z_state else integer_n_state, d @ [c])"
  using assms(2) isdigit_other[OF assms(1)] assms(1)
  by (elim disjE) (simp_all only:, (rule run_charI, simp add: feed_log_simps)+)

lemma run_nat_text:
  assumes "nat_text n" "st = default_state \<or> st = integer_1_state"
  shows "\<exists>st'. (st' = integer_z_state \<or> st' = integer_n_state)
           \<and> run n (stk, st, d) [] (stk, st', d @ n)"
proof -
  from assms(1) consider "n = ''0''" | "digits n" "hd n \<noteq> CHR ''0''"
    by (auto simp: nat_text_def)
  then show ?thesis
  proof cases
    case 1
    have "isdigit (CHR ''0'')" by (simp add: isdigit_def)
    from run_first_digit[OF this assms(2), of stk d] 1 show ?thesis by auto
  next
    case 2
    then obtain c ds where n: "n = c # ds" and c: "isdigit c" "c \<noteq> CHR ''0''"
      and ds: "list_all isdigit ds"
      by (cases n) (auto simp: digits_def)
    from run_first_digit[OF c(1) assms(2), of stk d] c(2)
    have a: "run [c] (stk, st, d) [] (stk, integer_n_state, d @ [c])" by simp
    have "integer_n_state = integer_n_state \<or> integer_n_state = fractional_n_state
          \<or> integer_n_state = exponent_n_state" by simp
    from run_append[OF a run_digits_loop[OF this ds]] n show ?thesis by auto
  qed
qed

lemma run_minus: "run ''-'' (stk, default_state, d) [] (stk, integer_1_state, d @ ''-'')"
  by (rule run_charI) (simp add: feed_log_simps isspace_def)

lemma run_int_text:
  assumes "int_text i"
  shows "\<exists>st'. (st' = integer_z_state \<or> st' = integer_n_state)
           \<and> run i (stk, default_state, []) [] (stk, st', i)"
proof -
  from assms consider "nat_text i" | n where "i = CHR ''-'' # n" "nat_text n"
    by (auto simp: int_text_def)
  then show ?thesis
  proof cases
    case 1
    from run_nat_text[OF this, of default_state stk "[]"] show ?thesis by simp
  next
    case 2
    from run_nat_text[OF 2(2), of integer_1_state stk "''-''"] obtain st' where
      st': "st' = integer_z_state \<or> st' = integer_n_state"
      and r: "run n (stk, integer_1_state, ''-'') [] (stk, st', ''-'' @ n)"
      by auto
    from run_append[OF run_minus[of stk "[]"]] r have "run (''-'' @ n) (stk, default_state, []) [] (stk, st', ''-'' @ n)"
      by simp
    with st' 2(1) show ?thesis by auto
  qed
qed

lemma run_point:
  assumes "st = integer_z_state \<or> st = integer_n_state"
  shows "run ''.'' (stk, st, d) [] (stk, fractional_1_state, d @ ''.'')"
  using assms
  by (elim disjE) (simp_all only:, (rule run_charI, simp add: feed_log_simps isdigit_def)+)

lemma run_fraction_digit:
  assumes "isdigit c"
  shows "run [c] (stk, fractional_1_state, d) [] (stk, fractional_n_state, d @ [c])"
  using assms by - (rule run_charI, simp add: feed_log_simps)

lemma run_frac_text:
  assumes "frac_text f" "st = integer_z_state \<or> st = integer_n_state"
  shows "run f (stk, st, d) [] (stk, fractional_n_state, d @ f)"
proof -
  from assms(1) obtain c ds where f: "f = CHR ''.'' # c # ds" and c: "isdigit c"
    and ds: "list_all isdigit ds"
    by (auto simp: frac_text_def digits_def neq_Nil_conv)
  have l: "fractional_n_state = integer_n_state \<or> fractional_n_state = fractional_n_state
          \<or> fractional_n_state = exponent_n_state" by simp
  from run_append[OF run_fraction_digit[OF c, of stk "d @ ''.''"] run_digits_loop[OF l ds]]
  have "run (c # ds) (stk, fractional_1_state, d @ ''.'') [] (stk, fractional_n_state, (d @ ''.'') @ c # ds)"
    by simp
  from run_append[OF run_point[OF assms(2)] this] f show ?thesis by simp
qed

lemma run_exp_letter:
  assumes "c = CHR ''e'' \<or> c = CHR ''E''"
    "st = integer_z_state \<or> st = integer_n_state \<or> st = fractional_n_state"
  shows "run [c] (stk, st, d) [] (stk, exponent_state, d @ [c])"
  using assms
  by (elim disjE) (simp_all only:, (rule run_charI, simp add: feed_log_simps isdigit_def)+)

lemma run_exp_sign:
  assumes "c = CHR ''+'' \<or> c = CHR ''-''"
  shows "run [c] (stk, exponent_state, d) [] (stk, exponent_1_state, d @ [c])"
  using assms
  by (elim disjE) (simp_all only:, (rule run_charI, simp add: feed_log_simps isdigit_def)+)

lemma run_exp_digit:
  assumes "isdigit c" "st = exponent_state \<or> st = exponent_1_state"
  shows "run [c] (stk, st, d) [] (stk, exponent_n_state, d @ [c])"
  using assms(2) assms(1)
  by (elim disjE) (simp_all only:, (rule run_charI, simp add: feed_log_simps)+)

lemma run_exp_digits:
  assumes "digits ds" "st = exponent_state \<or> st = exponent_1_state"
  shows "run ds (stk, st, d) [] (stk, exponent_n_state, d @ ds)"
proof -
  from assms(1) obtain c cs where ds: "ds = c # cs" and c: "isdigit c" and cs: "list_all isdigit cs"
    by (auto simp: digits_def neq_Nil_conv)
  have l: "exponent_n_state = integer_n_state \<or> exponent_n_state = fractional_n_state
          \<or> exponent_n_state = exponent_n_state" by simp
  from run_append[OF run_exp_digit[OF c assms(2), of stk d] run_digits_loop[OF l cs]] ds
  show ?thesis by simp
qed

lemma run_exp_text:
  assumes "exp_text e" "st = integer_z_state \<or> st = integer_n_state \<or> st = fractional_n_state"
  shows "run e (stk, st, d) [] (stk, exponent_n_state, d @ e)"
proof -
  from assms(1) obtain c sgn ds where e: "e = c # sgn @ ds" and c: "c = CHR ''e'' \<or> c = CHR ''E''"
    and sgn: "sgn = [] \<or> sgn = ''+'' \<or> sgn = ''-''" and ds: "digits ds"
    by (auto simp: exp_text_def)
  have "run (sgn @ ds) (stk, exponent_state, d @ [c]) [] (stk, exponent_n_state, (d @ [c]) @ sgn @ ds)"
  proof (cases "sgn = []")
    case True
    have "exponent_state = exponent_state \<or> exponent_state = exponent_1_state" by simp
    from run_exp_digits[OF ds this, of stk "d @ [c]"] True show ?thesis by simp
  next
    case False
    with sgn obtain g where g: "sgn = [g]" "g = CHR ''+'' \<or> g = CHR ''-''" by auto
    have "exponent_1_state = exponent_state \<or> exponent_1_state = exponent_1_state" by simp
    from run_append[OF run_exp_sign[OF g(2), of stk "d @ [c]"] run_exp_digits[OF ds this]] g(1)
    show ?thesis by simp
  qed
  from run_append[OF run_exp_letter[OF c assms(2)] this] e show ?thesis by simp
qed

lemma run_real_text:
  assumes "real_text t"
  shows "\<exists>st'. (st' = fractional_n_state \<or> st' = exponent_n_state)
           \<and> run t (stk, default_state, []) [] (stk, st', t)"
proof -
  from assms obtain i f e where t: "t = i @ f @ e" and i: "int_text i"
    and fe: "(frac_text f \<and> (e = [] \<or> exp_text e)) \<or> (f = [] \<and> exp_text e)"
    by (auto simp: real_text_def)
  from run_int_text[OF i, of stk] obtain st where st: "st = integer_z_state \<or> st = integer_n_state"
    and ri: "run i (stk, default_state, []) [] (stk, st, i)"
    by blast
  from fe consider "frac_text f" "e = []" | "frac_text f" "exp_text e" | "f = []" "exp_text e"
    by blast
  then show ?thesis
  proof cases
    case 1
    from run_append[OF ri run_frac_text[OF 1(1) st]] 1(2) t show ?thesis by auto
  next
    case 2
    have "fractional_n_state = integer_z_state \<or> fractional_n_state = integer_n_state
          \<or> fractional_n_state = fractional_n_state" by simp
    from run_append[OF run_frac_text[OF 2(1) st, of stk i] run_exp_text[OF 2(2) this]]
    have "run (f @ e) (stk, st, i) [] (stk, exponent_n_state, (i @ f) @ e)" by simp
    from run_append[OF ri this] t show ?thesis by auto
  next
    case 3
    from st have "st = integer_z_state \<or> st = integer_n_state \<or> st = fractional_n_state" by blast
    from run_append[OF ri run_exp_text[OF 3(2) this]] 3(1) t show ?thesis by auto
  qed
qed

subsection \<open>The item of a number, emitted on the next delimiter\<close>

lemma flushI:
  assumes "\<And>c r evs. delim c \<Longrightarrow> m_token_state r = stk \<Longrightarrow> m_char_state r = cs \<Longrightarrow> m_data r = d \<Longrightarrow>
     \<exists>r' evs'. feed cb_log c (r, evs) = feed cb_log c (r', evs') \<and> m_token_state r' = stk'
        \<and> m_char_state r' = cs' \<and> m_data r' = d' \<and> payloads evs' = payloads evs @ its"
  shows "runw [] (stk, cs, d) its (stk', cs', d')"
  unfolding runw_def
proof (intro allI impI)
  fix rest and s :: "(item \<times> string \<times> size_t \<times> size_t) list conf"
  assume r: "rest \<noteq> []" "delim (hd rest)" and "lexer_at s (stk, cs, d)"
  then have f: "m_token_state (fst s) = stk" "m_char_state (fst s) = cs" "m_data (fst s) = d"
    by (simp_all add: lexer_at_def)
  from r obtain c rest' where rest: "rest = c # rest'" "delim c" by (cases rest) auto
  from assms[OF rest(2) f, of "snd s"] obtain r' evs' where
    x: "feed cb_log c s = feed cb_log c (r', evs')" "m_token_state r' = stk'"
      "m_char_state r' = cs'" "m_data r' = d'" "payloads evs' = payloads (snd s) @ its"
    by auto
  show "\<exists>s'. feed_all cb_log ([] @ rest) s = feed_all cb_log rest s' \<and> lexer_at s' (stk', cs', d')
            \<and> payloads (snd s') = payloads (snd s) @ its"
    by (intro exI[of _ "(r', evs')"]) (simp add: rest x lexer_at_def)
qed

lemma flush_step:
  assumes "scan cb c s = Inr (False, s')"
  shows "feed cb c s = feed cb c s'"
  using assms by (subst feed.simps) simp

lemma token_number_log:
  assumes "m_token_state r = st # rest"
    "st = object_v_state \<or> st = array_1_state \<or> st = array_v_state"
  shows "token cb_log integer_token (r, evs)
           = Inr (r\<lparr>m_token_state := after_value (st # rest), m_data := []\<rparr>,
                  evs @ [(integer_value, m_data r, m_row r, m_column r)])"
    and "token cb_log real_token (r, evs)
           = Inr (r\<lparr>m_token_state := after_value (st # rest), m_data := []\<rparr>,
                  evs @ [(real_value, m_data r, m_row r, m_column r)])"
  using assms(2) assms(1)
  by (elim disjE; simp add: token_log_simps call_log after_value_def)+

lemma scan_flush_integer:
  assumes "delim c" "m_char_state r = integer_z_state \<or> m_char_state r = integer_n_state"
    "token cb_log integer_token (r, evs) = Inr (r1, evs1)"
  shows "scan cb_log c (r, evs) = Inr (False, (r1\<lparr>m_char_state := default_state\<rparr>, evs1))"
  using assms(2) delim_other[OF assms(1)] assms(3)
  by (elim disjE; simp add: scan_def scan_integer_z_state_def seq_def repeat_def)

lemma scan_flush_real:
  assumes "delim c" "m_char_state r = fractional_n_state \<or> m_char_state r = exponent_n_state"
    "token cb_log real_token (r, evs) = Inr (r1, evs1)"
  shows "scan cb_log c (r, evs) = Inr (False, (r1\<lparr>m_char_state := default_state\<rparr>, evs1))"
  using assms(2) delim_other[OF assms(1)] assms(3)
  by (elim disjE; simp add: scan_def seq_def repeat_def)

lemma flush_integer:
  assumes "valpos stk" "stk \<noteq> []" "st = integer_z_state \<or> st = integer_n_state"
  shows "runw [] (stk, st, d) [(integer_value, d)] (after_value stk, default_state, [])"
proof (rule flushI)
  fix c and r :: reader and evs :: "(item \<times> string \<times> size_t \<times> size_t) list"
  assume c: "delim c" and f: "m_token_state r = stk" "m_char_state r = st" "m_data r = d"
  from assms(1,2) obtain t rest where stk: "stk = t # rest"
    and t: "t = object_v_state \<or> t = array_1_state \<or> t = array_v_state"
    by (cases stk) (auto simp: valpos_def)
  let ?r' = "r\<lparr>m_token_state := after_value stk, m_data := []\<rparr>"
  let ?evs' = "evs @ [(integer_value, d, m_row r, m_column r)]"
  from token_number_log(1)[OF f(1)[unfolded stk] t, of evs] f(3) stk
  have tk: "token cb_log integer_token (r, evs) = Inr (?r', ?evs')" by simp
  from assms(3) f(2) have "m_char_state r = integer_z_state \<or> m_char_state r = integer_n_state"
    by simp
  from flush_step[OF scan_flush_integer[OF c this tk]]
  show "\<exists>r' evs'. feed cb_log c (r, evs) = feed cb_log c (r', evs')
          \<and> m_token_state r' = after_value stk \<and> m_char_state r' = default_state \<and> m_data r' = []
          \<and> payloads evs' = payloads evs @ [(integer_value, d)]"
    by (intro exI[of _ "?r'\<lparr>m_char_state := default_state\<rparr>"] exI[of _ ?evs'])
       (simp add: payloads_def)
qed

lemma flush_real:
  assumes "valpos stk" "stk \<noteq> []" "st = fractional_n_state \<or> st = exponent_n_state"
  shows "runw [] (stk, st, d) [(real_value, d)] (after_value stk, default_state, [])"
proof (rule flushI)
  fix c and r :: reader and evs :: "(item \<times> string \<times> size_t \<times> size_t) list"
  assume c: "delim c" and f: "m_token_state r = stk" "m_char_state r = st" "m_data r = d"
  from assms(1,2) obtain t rest where stk: "stk = t # rest"
    and t: "t = object_v_state \<or> t = array_1_state \<or> t = array_v_state"
    by (cases stk) (auto simp: valpos_def)
  let ?r' = "r\<lparr>m_token_state := after_value stk, m_data := []\<rparr>"
  let ?evs' = "evs @ [(real_value, d, m_row r, m_column r)]"
  from token_number_log(2)[OF f(1)[unfolded stk] t, of evs] f(3) stk
  have tk: "token cb_log real_token (r, evs) = Inr (?r', ?evs')" by simp
  from assms(3) f(2) have "m_char_state r = fractional_n_state \<or> m_char_state r = exponent_n_state"
    by simp
  from flush_step[OF scan_flush_real[OF c this tk]]
  show "\<exists>r' evs'. feed cb_log c (r, evs) = feed cb_log c (r', evs')
          \<and> m_token_state r' = after_value stk \<and> m_char_state r' = default_state \<and> m_data r' = []
          \<and> payloads evs' = payloads evs @ [(real_value, d)]"
    by (intro exI[of _ "?r'\<lparr>m_char_state := default_state\<rparr>"] exI[of _ ?evs'])
       (simp add: payloads_def)
qed

lemma runw_integer:
  assumes "int_text t" "valpos stk" "stk \<noteq> []"
  shows "runw t (stk, default_state, []) [(integer_value, t)] (after_value stk, default_state, [])"
proof -
  from run_int_text[OF assms(1), of stk] obtain st where st: "st = integer_z_state \<or> st = integer_n_state"
    and r: "run t (stk, default_state, []) [] (stk, st, t)"
    by blast
  from run_then_runw[OF r flush_integer[OF assms(2,3) st]] show ?thesis by simp
qed

lemma runw_real:
  assumes "real_text t" "valpos stk" "stk \<noteq> []"
  shows "runw t (stk, default_state, []) [(real_value, t)] (after_value stk, default_state, [])"
proof -
  from run_real_text[OF assms(1), of stk] obtain st where st: "st = fractional_n_state \<or> st = exponent_n_state"
    and r: "run t (stk, default_state, []) [] (stk, st, t)"
    by blast
  from run_then_runw[OF r flush_real[OF assms(2,3) st]] show ?thesis by simp
qed

lemma run_string_value:
  assumes "string_body t p" "valpos stk" "stk \<noteq> []"
  shows "run ([dquote] @ t @ [dquote]) (stk, default_state, []) [(string_value, p)]
           (after_value stk, default_state, [])"
proof -
  from run_append[OF run_string_body[OF assms(1), of stk "[]"] run_quote_close_value[OF assms(2,3)]]
  have "run (t @ [dquote]) (stk, string_state, []) [(string_value, p)] (after_value stk, default_state, [])"
    by simp
  from run_append[OF run_quote_open this] show ?thesis by simp
qed

lemma run_key:
  assumes "string_body t p" "st = object_1_state \<or> st = object_2_state"
  shows "run ([dquote] @ t @ [dquote]) (st # stk, default_state, []) [(key, p)]
           (object_3_state # stk, default_state, [])"
proof -
  from run_append[OF run_string_body[OF assms(1), of "st # stk" "[]"] run_quote_close_key[OF assms(2)]]
  have "run (t @ [dquote]) (st # stk, string_state, []) [(key, p)] (object_3_state # stk, default_state, [])"
    by simp
  from run_append[OF run_quote_open this] show ?thesis by simp
qed

lemma runw_ws:
  assumes "runw t a its (stk, default_state, d)" "is_ws w"
  shows "runw (t @ w) a its (stk, default_state, d)"
proof (cases "w = []")
  case True
  with assms(1) show ?thesis by simp
next
  case False
  with assms(2) have "delim (hd w)" by (cases w) (auto simp: is_ws_def delim_def)
  from runw_then_run[OF assms(1) run_ws[OF assms(2)] False this]
  have "run (t @ w) a its (stk, default_state, d)" by simp
  then show ?thesis by (rule run_runw)
qed

subsection \<open>The reader on the grammar\<close>

lemma delim_chars: "delim (CHR '','')" "delim (CHR '']'')" "delim (CHR ''}'')"
  by (simp_all add: delim_def)

lemma valpos_value_states:
  "valpos (object_v_state # stk)" "valpos (array_1_state # stk)" "valpos (array_v_state # stk)"
  "valpos []"
  by (simp_all add: valpos_def)

lemma after_value_simps:
  "after_value (object_v_state # stk) = object_n_state # stk"
  "after_value (array_1_state # stk) = array_n_state # stk"
  "after_value (array_v_state # stk) = array_n_state # stk"
  "after_value [] = []"
  by (simp_all add: after_value_def)

lemma run_array_text:
  assumes "valpos stk"
    "runw t (array_1_state # after_value stk, default_state, []) its
       (array_n_state # after_value stk, default_state, [])"
  shows "run (''['' @ t @ '']'') (stk, default_state, [])
           ([(array_begin, [])] @ its @ [(array_end, [])]) (after_value stk, default_state, [])"
proof -
  have "run '']'' (array_n_state # after_value stk, default_state, []) [(array_end, [])]
          (after_value stk, default_state, [])"
    by (rule run_array_end) simp
  from runw_then_run[OF assms(2) this] delim_chars
  have "run (t @ '']'') (array_1_state # after_value stk, default_state, [])
          (its @ [(array_end, [])]) (after_value stk, default_state, [])"
    by simp
  from run_append[OF run_array_begin[OF assms(1)] this] show ?thesis by simp
qed

lemma run_object_text:
  assumes "valpos stk"
    "runw t (object_1_state # after_value stk, default_state, []) its
       (object_n_state # after_value stk, default_state, [])"
  shows "run (''{'' @ t @ ''}'') (stk, default_state, [])
           ([(object_begin, [])] @ its @ [(object_end, [])]) (after_value stk, default_state, [])"
proof -
  have "run ''}'' (object_n_state # after_value stk, default_state, []) [(object_end, [])]
          (after_value stk, default_state, [])"
    by (rule run_object_end) simp
  from runw_then_run[OF assms(2) this] delim_chars
  have "run (t @ ''}'') (object_1_state # after_value stk, default_state, [])
          (its @ [(object_end, [])]) (after_value stk, default_state, [])"
    by simp
  from run_append[OF run_object_begin[OF assms(1)] this] show ?thesis by simp
qed

lemma run_array_empty:
  assumes "valpos stk" "is_ws w"
  shows "run (''['' @ w @ '']'') (stk, default_state, [])
           ([(array_begin, [])] @ [(array_end, [])]) (after_value stk, default_state, [])"
proof -
  have "run '']'' (array_1_state # after_value stk, default_state, []) [(array_end, [])]
          (after_value stk, default_state, [])"
    by (rule run_array_end) simp
  from run_append[OF run_ws[OF assms(2)] this]
  have "run (w @ '']'') (array_1_state # after_value stk, default_state, [])
          [(array_end, [])] (after_value stk, default_state, [])"
    by simp
  from run_append[OF run_array_begin[OF assms(1)] this] show ?thesis by simp
qed

lemma run_object_empty:
  assumes "valpos stk" "is_ws w"
  shows "run (''{'' @ w @ ''}'') (stk, default_state, [])
           ([(object_begin, [])] @ [(object_end, [])]) (after_value stk, default_state, [])"
proof -
  have "run ''}'' (object_1_state # after_value stk, default_state, []) [(object_end, [])]
          (after_value stk, default_state, [])"
    by (rule run_object_end) simp
  from run_append[OF run_ws[OF assms(2)] this]
  have "run (w @ ''}'') (object_1_state # after_value stk, default_state, [])
          [(object_end, [])] (after_value stk, default_state, [])"
    by simp
  from run_append[OF run_object_begin[OF assms(1)] this] show ?thesis by simp
qed

lemma runw_element:
  assumes "is_ws w1" "is_ws w2" "st = array_1_state \<or> st = array_v_state"
    "runw t (st # stk, default_state, []) its (after_value (st # stk), default_state, [])"
  shows "runw (w1 @ t @ w2) (st # stk, default_state, []) its (array_n_state # stk, default_state, [])"
proof -
  from assms(3) have a: "after_value (st # stk) = array_n_state # stk"
    by (auto simp: after_value_simps)
  from runw_ws[OF assms(4)[unfolded a] assms(2)]
  have "runw (t @ w2) (st # stk, default_state, []) its (array_n_state # stk, default_state, [])" .
  from run_then_runw[OF run_ws[OF assms(1)] this] show ?thesis by simp
qed

lemma runw_element_more:
  assumes "runw t1 (st # stk, default_state, []) i1 (array_n_state # stk, default_state, [])"
    "runw ts (array_v_state # stk, default_state, []) i2 (array_n_state # stk, default_state, [])"
  shows "runw (t1 @ '','' @ ts) (st # stk, default_state, []) (i1 @ i2)
           (array_n_state # stk, default_state, [])"
proof -
  from runw_then_run[OF assms(1) run_comma_array] delim_chars
  have "run (t1 @ '','') (st # stk, default_state, []) i1 (array_v_state # stk, default_state, [])"
    by simp
  from run_then_runw[OF this assms(2)] show ?thesis by simp
qed

lemma runw_member:
  assumes "is_ws w1" "string_body kt k" "is_ws w2" "is_ws w3" "is_ws w4"
    "st = object_1_state \<or> st = object_2_state"
    "runw t (object_v_state # stk, default_state, []) its
       (after_value (object_v_state # stk), default_state, [])"
  shows "runw (w1 @ [dquote] @ kt @ [dquote] @ w2 @ '':'' @ w3 @ t @ w4)
           (st # stk, default_state, []) ((key, k) # its) (object_n_state # stk, default_state, [])"
proof -
  from runw_ws[OF assms(7)[unfolded after_value_simps] assms(5)]
  have a: "runw (t @ w4) (object_v_state # stk, default_state, []) its
             (object_n_state # stk, default_state, [])" .
  from run_append[OF run_colon run_ws[OF assms(4)]]
  have b: "run ('':'' @ w3) (object_3_state # stk, default_state, []) []
             (object_v_state # stk, default_state, [])"
    by simp
  from run_append[OF run_ws[OF assms(3)] b]
  have c: "run (w2 @ '':'' @ w3) (object_3_state # stk, default_state, []) []
             (object_v_state # stk, default_state, [])"
    by simp
  from run_append[OF run_key[OF assms(2,6)] c]
  have d: "run ([dquote] @ kt @ [dquote] @ w2 @ '':'' @ w3) (st # stk, default_state, []) [(key, k)]
             (object_v_state # stk, default_state, [])"
    by simp
  from run_append[OF run_ws[OF assms(1)] d]
  have e: "run (w1 @ [dquote] @ kt @ [dquote] @ w2 @ '':'' @ w3) (st # stk, default_state, [])
             [(key, k)] (object_v_state # stk, default_state, [])"
    by simp
  from run_then_runw[OF e a] show ?thesis by simp
qed

lemma runw_member_more:
  assumes "runw t1 (st # stk, default_state, []) i1 (object_n_state # stk, default_state, [])"
    "runw ts (object_2_state # stk, default_state, []) i2 (object_n_state # stk, default_state, [])"
  shows "runw (t1 @ '','' @ ts) (st # stk, default_state, []) (i1 @ i2)
           (object_n_state # stk, default_state, [])"
proof -
  from runw_then_run[OF assms(1) run_comma_object] delim_chars
  have "run (t1 @ '','') (st # stk, default_state, []) i1 (object_2_state # stk, default_state, [])"
    by simp
  from run_then_runw[OF this assms(2)] show ?thesis by simp
qed

lemma reads_scalar:
  assumes "\<not> is_container v"
    "\<And>stk. valpos stk \<Longrightarrow> stk \<noteq> [] \<Longrightarrow>
       runw t (stk, default_state, []) (items v) (after_value stk, default_state, [])"
  shows "reads_value v t"
  using assms by (simp add: reads_value_def)

lemma reads_container:
  assumes "\<And>stk. valpos stk \<Longrightarrow>
       run t (stk, default_state, []) (items v) (after_value stk, default_state, [])"
  shows "reads_value v t"
  using assms by (simp add: reads_value_def run_runw)

lemma reads_valueD:
  assumes "reads_value v t" "st = object_v_state \<or> st = array_1_state \<or> st = array_v_state"
  shows "runw t (st # stk, default_state, []) (items v) (after_value (st # stk), default_state, [])"
proof -
  from assms(2) have "valpos (st # stk)" by (auto simp: valpos_def)
  with assms(1) show ?thesis by (simp add: reads_value_def)
qed

lemma reads_valueC:
  assumes "reads_value v t" "is_container v" "valpos stk"
  shows "run t (stk, default_state, []) (items v) (after_value stk, default_state, [])"
proof -
  from assms(1) have "valpos stk \<longrightarrow>
        (is_container v \<longrightarrow>
           run t (stk, default_state, []) (items v) (after_value stk, default_state, []))
        \<and> (stk \<noteq> [] \<longrightarrow>
           runw t (stk, default_state, []) (items v) (after_value stk, default_state, []))"
    unfolding reads_value_def by (rule spec)
  with assms(2,3) show ?thesis by simp
qed

lemma reader_grammar:
  shows "json_text v t \<Longrightarrow> reads_value v t"
    and "json_elements vs ts \<Longrightarrow> reads_elements vs ts"
    and "json_members ms tm \<Longrightarrow> reads_members ms tm"
proof (induction rule: json_text_json_elements_json_members.inducts)
  case (text_string t p)
  show ?case
  proof (rule reads_scalar)
    show "\<not> is_container (JString p)" by (simp add: is_container_def)
  next
    fix stk :: "token_state list" assume "valpos stk" "stk \<noteq> []"
    from run_runw[OF run_string_value[OF text_string this]]
    show "runw ([dquote] @ t @ [dquote]) (stk, default_state, []) (items (JString p))
            (after_value stk, default_state, [])"
      by simp
  qed
next
  case (text_integer t)
  show ?case
    by (rule reads_scalar) (simp_all add: is_container_def runw_integer[OF text_integer])
next
  case (text_real t)
  show ?case
    by (rule reads_scalar) (simp_all add: is_container_def runw_real[OF text_real])
next
  case text_null
  show ?case
    by (rule reads_scalar) (simp_all add: is_container_def run_runw run_null)
next
  case text_true
  show ?case
    by (rule reads_scalar) (simp_all add: is_container_def run_runw run_true)
next
  case text_false
  show ?case
    by (rule reads_scalar) (simp_all add: is_container_def run_runw run_false)
next
  case (text_array_empty w)
  show ?case
  proof (rule reads_container)
    fix stk assume "valpos stk"
    from run_array_empty[OF this text_array_empty]
    show "run (''['' @ w @ '']'') (stk, default_state, []) (items (JArray []))
            (after_value stk, default_state, [])"
      by simp
  qed
next
  case (text_array v vs t)
  show ?case
  proof (rule reads_container)
    fix stk assume v: "valpos stk"
    from text_array.IH have "runw t (array_1_state # after_value stk, default_state, [])
        (concat (map items (v # vs))) (array_n_state # after_value stk, default_state, [])"
      by (simp add: reads_elements_def)
    from run_array_text[OF v this]
    show "run (''['' @ t @ '']'') (stk, default_state, []) (items (JArray (v # vs)))
            (after_value stk, default_state, [])"
      by simp
  qed
next
  case (text_object_empty w)
  show ?case
  proof (rule reads_container)
    fix stk assume "valpos stk"
    from run_object_empty[OF this text_object_empty]
    show "run (''{'' @ w @ ''}'') (stk, default_state, []) (items (JObject []))
            (after_value stk, default_state, [])"
      by simp
  qed
next
  case (text_object m ms t)
  show ?case
  proof (rule reads_container)
    fix stk assume v: "valpos stk"
    from text_object.IH have "runw t (object_1_state # after_value stk, default_state, [])
        (concat (map (\<lambda>m. (key, fst m) # items (snd m)) (m # ms)))
        (object_n_state # after_value stk, default_state, [])"
      by (simp add: reads_members_def)
    from run_object_text[OF v this]
    show "run (''{'' @ t @ ''}'') (stk, default_state, []) (items (JObject (m # ms)))
            (after_value stk, default_state, [])"
      by simp
  qed
next
  case (elements_last w1 v t w2)
  show ?case
    unfolding reads_elements_def
  proof (intro allI impI)
    fix stk st assume st: "st = array_1_state \<or> st = array_v_state"
    then have "st = object_v_state \<or> st = array_1_state \<or> st = array_v_state" by blast
    from runw_element[OF elements_last.hyps(1,3) st reads_valueD[OF elements_last.IH this]]
    show "runw (w1 @ t @ w2) (st # stk, default_state, []) (concat (map items [v]))
            (array_n_state # stk, default_state, [])"
      by simp
  qed
next
  case (elements_more w1 v t w2 v' vs ts)
  show ?case
    unfolding reads_elements_def
  proof (intro allI impI)
    fix stk st assume st: "st = array_1_state \<or> st = array_v_state"
    then have "st = object_v_state \<or> st = array_1_state \<or> st = array_v_state" by blast
    from runw_element[OF elements_more.hyps(1,3) st reads_valueD[OF elements_more.IH(1) this]]
    have a: "runw (w1 @ t @ w2) (st # stk, default_state, []) (items v)
               (array_n_state # stk, default_state, [])" .
    from elements_more.IH(2)
    have b: "runw ts (array_v_state # stk, default_state, []) (concat (map items (v' # vs)))
               (array_n_state # stk, default_state, [])"
      by (simp add: reads_elements_def)
    from runw_element_more[OF a b]
    show "runw (w1 @ t @ w2 @ '','' @ ts) (st # stk, default_state, [])
            (concat (map items (v # v' # vs))) (array_n_state # stk, default_state, [])"
      by simp
  qed
next
  case (members_last w1 kt k w2 w3 v t w4)
  show ?case
    unfolding reads_members_def
  proof (intro allI impI)
    fix stk st assume st: "st = object_1_state \<or> st = object_2_state"
    have "object_v_state = object_v_state \<or> object_v_state = array_1_state
          \<or> object_v_state = array_v_state" by simp
    from runw_member[OF members_last.hyps(1,2,3,4,6) st reads_valueD[OF members_last.IH this]]
    show "runw (w1 @ [dquote] @ kt @ [dquote] @ w2 @ '':'' @ w3 @ t @ w4)
            (st # stk, default_state, [])
            (concat (map (\<lambda>m. (key, fst m) # items (snd m)) [(k, v)]))
            (object_n_state # stk, default_state, [])"
      by simp
  qed
next
  case (members_more w1 kt k w2 w3 v t w4 m ms ts)
  show ?case
    unfolding reads_members_def
  proof (intro allI impI)
    fix stk st assume st: "st = object_1_state \<or> st = object_2_state"
    have "object_v_state = object_v_state \<or> object_v_state = array_1_state
          \<or> object_v_state = array_v_state" by simp
    from runw_member[OF members_more.hyps(1,2,3,4,6) st reads_valueD[OF members_more.IH(1) this]]
    have a: "runw (w1 @ [dquote] @ kt @ [dquote] @ w2 @ '':'' @ w3 @ t @ w4)
               (st # stk, default_state, []) ((key, k) # items v)
               (object_n_state # stk, default_state, [])" .
    from members_more.IH(2)
    have b: "runw ts (object_2_state # stk, default_state, [])
               (concat (map (\<lambda>m. (key, fst m) # items (snd m)) (m # ms)))
               (object_n_state # stk, default_state, [])"
      by (simp add: reads_members_def)
    from runw_member_more[OF a b]
    show "runw (w1 @ [dquote] @ kt @ [dquote] @ w2 @ '':'' @ w3 @ t @ w4 @ '','' @ ts)
            (st # stk, default_state, [])
            (concat (map (\<lambda>m. (key, fst m) # items (snd m)) ((k, v) # m # ms)))
            (object_n_state # stk, default_state, [])"
      by simp
  qed
qed

lemma reads_document:
  assumes "document_text v d"
  shows "\<exists>r evs. feed_all cb_log d (reader_init, []) = Inr (r, evs) \<and> payloads evs = items v
           \<and> m_token_state r = [] \<and> m_char_state r = default_state \<and> m_data r = []"
proof -
  from assms obtain w1 t w2 where d: "d = w1 @ t @ w2" and c: "is_container v"
    and w: "is_ws w1" "is_ws w2" and t: "json_text v t"
    by (auto simp: document_text_def)
  from reads_valueC[OF reader_grammar(1)[OF t] c valpos_value_states(4)]
  have "run t ([], default_state, []) (items v) ([], default_state, [])"
    by (simp add: after_value_simps)
  from run_append[OF this run_ws[OF w(2)]]
  have "run (t @ w2) ([], default_state, []) (items v) ([], default_state, [])" by simp
  from run_append[OF run_ws[OF w(1)] this] d
  have "run d ([], default_state, []) (items v) ([], default_state, [])" by simp
  then have "\<forall>s :: (item \<times> string \<times> size_t \<times> size_t) list conf.
      lexer_at s ([], default_state, []) \<longrightarrow>
        (\<exists>s'. feed_all cb_log d s = Inr s' \<and> lexer_at s' ([], default_state, [])
           \<and> payloads (snd s') = payloads (snd s) @ items v)"
    unfolding run_def .
  then have "lexer_at (reader_init, [] :: (item \<times> string \<times> size_t \<times> size_t) list)
        ([], default_state, []) \<longrightarrow>
        (\<exists>s'. feed_all cb_log d (reader_init, []) = Inr s' \<and> lexer_at s' ([], default_state, [])
           \<and> payloads (snd s') = payloads (snd (reader_init, [])) @ items v)"
    by (rule spec)
  moreover have "lexer_at (reader_init, [] :: (item \<times> string \<times> size_t \<times> size_t) list)
        ([], default_state, [])"
    by (simp add: lexer_at_def reader_init_def)
  ultimately obtain s' :: "(item \<times> string \<times> size_t \<times> size_t) list conf"
    where s': "feed_all cb_log d (reader_init, []) = Inr s'" "lexer_at s' ([], default_state, [])"
      "payloads (snd s') = payloads (snd (reader_init, [])) @ items v"
    by blast
  show ?thesis
  proof (intro exI[of _ "fst s'"] exI[of _ "snd s'"] conjI)
    show "feed_all cb_log d (reader_init, []) = Inr (fst s', snd s')" using s'(1) by simp
    show "payloads (snd s') = items v" using s'(3) by (simp add: payloads_def)
    show "m_token_state (fst s') = []" "m_char_state (fst s') = default_state" "m_data (fst s') = []"
      using s'(2) by (simp_all add: lexer_at_def)
  qed
qed

subsection \<open>Steps of the writer\<close>

lemma endl_nl: "endl (w, out) = (w, out @ nl w)"
  by (simp add: endl_def nl_def)

lemma nl_state: "length stk' = length (m_state w) \<Longrightarrow> nl (w\<lparr>m_state := stk'\<rparr>) = nl w"
  by (simp add: nl_def)

lemma is_ws_nl: "is_ws (nl w)"
  by (auto simp: nl_def is_ws_def isspace_def list_all_iff)

lemma w_string_quoted: "w_string data (w, out) = (w, out @ quoted data)"
  by (simp add: w_string_def quoted_def)

lemma write_all_append:
  "write_all (xs @ ys) s = (case write_all xs s of Inl x \<Rightarrow> Inl x | Inr s' \<Rightarrow> write_all ys s')"
proof (induction xs arbitrary: s)
  case Nil
  show ?case by simp
next
  case (Cons x xs)
  obtain it data where x: "x = (it, data)" by (cases x)
  show ?case unfolding x by (cases "w_write it data s") (simp_all add: Cons.IH)
qed

lemma writes_nil: "writes [] w [] w"
  by (simp add: writes_def)

lemma writes_append:
  assumes "writes i1 w t1 w1" "writes i2 w1 t2 w2"
  shows "writes (i1 @ i2) w (t1 @ t2) w2"
  using assms by (simp add: writes_def write_all_append)

lemma writes_stepI:
  assumes "\<And>out. w_write it data (w, out) = Inr (w', out @ t)"
  shows "writes [(it, data)] w t w'"
  using assms by (simp add: writes_def)

lemmas w_steps =
  steps_def w_token_def w_push_def w_jump_def w_pop_def endl_nl w_string_quoted
  object_begin_data_def object_end_data_def array_begin_data_def array_end_data_def
  comma_data_def colon_data_def null_data_def true_data_def false_data_def

lemma writes_scalar:
  assumes "is_scalar it" "w_valpos (m_state w)" "m_state w \<noteq> []"
  shows "writes [(it, data)] w (w_prefix w @ scalar_text it data) (w\<lparr>m_state := w_after (m_state w)\<rparr>)"
proof -
  from assms(2,3) obtain st rest where s: "m_state w = st # rest"
    and st: "st = w_object_v_state \<or> st = w_array_1_state \<or> st = w_array_n_state"
    by (cases "m_state w") (auto simp: w_valpos_def)
  obtain i stk where w: "w = \<lparr>m_indent = i, m_state = stk\<rparr>" by (cases w) simp
  from assms(1) have it: "it = string_value \<or> it = integer_value \<or> it = real_value
      \<or> it = null_value \<or> it = true_value \<or> it = false_value"
    by (simp add: is_scalar_def)
  show ?thesis
  proof (rule writes_stepI)
    fix out
    from st it s show "w_write it data (w, out)
        = Inr (w\<lparr>m_state := w_after (m_state w)\<rparr>, out @ w_prefix w @ scalar_text it data)"
      unfolding w
      by (elim disjE; simp add: w_write_def w_steps w_after_def w_prefix_def sep_def scalar_text_def)
  qed
qed

lemma writes_begin:
  assumes "w_valpos (m_state w)"
  shows "writes [(object_begin, data)] w (w_prefix w @ ''{'')
           (w\<lparr>m_state := w_object_1_state # w_after (m_state w)\<rparr>)"
    and "writes [(array_begin, data)] w (w_prefix w @ ''['')
           (w\<lparr>m_state := w_array_1_state # w_after (m_state w)\<rparr>)"
proof -
  obtain i stk where w: "w = \<lparr>m_indent = i, m_state = stk\<rparr>" by (cases w) simp
  from assms consider "stk = []" | rest where "stk = w_object_v_state # rest"
    | rest where "stk = w_array_1_state # rest" | rest where "stk = w_array_n_state # rest"
    unfolding w by (cases stk) (auto simp: w_valpos_def)
  then have "\<And>out. w_write object_begin data (w, out)
        = Inr (w\<lparr>m_state := w_object_1_state # w_after (m_state w)\<rparr>, out @ w_prefix w @ ''{'')
      \<and> w_write array_begin data (w, out)
        = Inr (w\<lparr>m_state := w_array_1_state # w_after (m_state w)\<rparr>, out @ w_prefix w @ ''['')"
    unfolding w
    by cases (simp_all add: w_write_def w_steps w_after_def w_prefix_def sep_def)
  then show "writes [(object_begin, data)] w (w_prefix w @ ''{'')
           (w\<lparr>m_state := w_object_1_state # w_after (m_state w)\<rparr>)"
    and "writes [(array_begin, data)] w (w_prefix w @ ''['')
           (w\<lparr>m_state := w_array_1_state # w_after (m_state w)\<rparr>)"
    by (simp_all add: writes_def)
qed

lemma writes_end_1:
  shows "m_state w = w_object_1_state # rest \<Longrightarrow>
           writes [(object_end, data)] w ''}'' (w\<lparr>m_state := rest\<rparr>)"
    and "m_state w = w_array_1_state # rest \<Longrightarrow>
           writes [(array_end, data)] w '']'' (w\<lparr>m_state := rest\<rparr>)"
  by (cases w; simp add: writes_def w_write_def w_steps)+

lemma writes_end_n:
  shows "m_state w = w_object_n_state # rest \<Longrightarrow>
           writes [(object_end, data)] w (nl (w\<lparr>m_state := rest\<rparr>) @ ''}'') (w\<lparr>m_state := rest\<rparr>)"
    and "m_state w = w_array_n_state # rest \<Longrightarrow>
           writes [(array_end, data)] w (nl (w\<lparr>m_state := rest\<rparr>) @ '']'') (w\<lparr>m_state := rest\<rparr>)"
  by (cases w; simp add: writes_def w_write_def w_steps)+

lemma writes_key:
  assumes "m_state w = st # rest" "st = w_object_1_state \<or> st = w_object_n_state"
  shows "writes [(key, data)] w (sep st @ nl w @ quoted data @ [CHR '':'', CHR '' ''])
           (w\<lparr>m_state := w_object_v_state # rest\<rparr>)"
  using assms(2) assms(1)
  by (elim disjE; cases w; simp add: writes_def w_write_def w_steps sep_def nl_def)

subsection \<open>The writer on the items of a value\<close>

lemma encode_cases:
  "(\<exists>x. (x, c) \<in> set escapes \<and> encode c = [backslash, x])
   \<or> (encode c = [c] \<and> c \<noteq> dquote \<and> c \<noteq> backslash)"
  by (simp add: encode_def escapes_def)

lemma string_body_encode: "string_body (concat (map encode p)) p"
proof (induction p)
  case Nil
  show ?case by (simp add: body_end)
next
  case (Cons c p)
  from encode_cases[of c] show ?case
  proof (elim disjE exE conjE)
    fix x assume "(x, c) \<in> set escapes" "encode c = [backslash, x]"
    with body_escape[OF this(1) Cons.IH] show ?thesis by simp
  next
    assume "encode c = [c]" "c \<noteq> dquote" "c \<noteq> backslash"
    with body_char[OF this(2,3) Cons.IH] show ?thesis by simp
  qed
qed

lemma json_text_quoted: "json_text (JString p) (quoted p)"
  unfolding quoted_def by (rule text_string) (rule string_body_encode)

lemma is_ws_simps: "is_ws []" "is_ws '' ''"
  by (simp_all add: is_ws_def isspace_def)

lemma writes_value_scalar:
  assumes "items v = [(it, data)]" "is_scalar it" "json_text v (scalar_text it data)"
  shows "writes_value v"
  unfolding writes_value_def
proof (intro allI impI)
  fix w :: writer assume a: "w_valpos (m_state w)" "m_state w \<noteq> [] \<or> is_container v"
  from assms(1,2) have "\<not> is_container v"
    by (cases v) (auto simp: is_container_def is_scalar_def)
  with a have "m_state w \<noteq> []" by simp
  from writes_scalar[OF assms(2) a(1) this, of data] assms(1,3)
  show "\<exists>t. json_text v t
           \<and> writes (items v) w (w_prefix w @ t) (w\<lparr>m_state := w_after (m_state w)\<rparr>)"
    by (intro exI[of _ "scalar_text it data"]) simp
qed

lemma writes_valueD:
  assumes "writes_value v" "m_state w = st # stk"
    "st = w_object_v_state \<or> st = w_array_1_state \<or> st = w_array_n_state"
  obtains t where "json_text v t"
    "writes (items v) w (w_prefix w @ t) (w\<lparr>m_state := w_after (st # stk)\<rparr>)"
proof -
  from assms(2,3) have "w_valpos (m_state w)" "m_state w \<noteq> []"
    by (auto simp: w_valpos_def)
  with assms(1) have "\<exists>t. json_text v t
           \<and> writes (items v) w (w_prefix w @ t) (w\<lparr>m_state := w_after (m_state w)\<rparr>)"
    unfolding writes_value_def by blast
  with assms(2) that show thesis by auto
qed

lemma writes_elementsD:
  assumes "writes_elements vs" "m_state w = st # stk" "st = w_array_1_state \<or> st = w_array_n_state"
  obtains e where "\<And>w2. is_ws w2 \<Longrightarrow> json_elements vs (e @ w2)"
    "writes (concat (map items vs)) w (sep st @ e) (w\<lparr>m_state := w_array_n_state # stk\<rparr>)"
proof -
  from assms have "\<exists>e. (\<forall>w2. is_ws w2 \<longrightarrow> json_elements vs (e @ w2))
           \<and> writes (concat (map items vs)) w (sep st @ e) (w\<lparr>m_state := w_array_n_state # stk\<rparr>)"
    unfolding writes_elements_def by blast
  with that show thesis by blast
qed

lemma writes_membersD:
  assumes "writes_members ms" "m_state w = st # stk" "st = w_object_1_state \<or> st = w_object_n_state"
  obtains e where "\<And>w4. is_ws w4 \<Longrightarrow> json_members ms (e @ w4)"
    "writes (concat (map (\<lambda>m. (key, fst m) # items (snd m)) ms)) w (sep st @ e)
       (w\<lparr>m_state := w_object_n_state # stk\<rparr>)"
proof -
  from assms have "\<exists>e. (\<forall>w4. is_ws w4 \<longrightarrow> json_members ms (e @ w4))
           \<and> writes (concat (map (\<lambda>m. (key, fst m) # items (snd m)) ms)) w (sep st @ e)
               (w\<lparr>m_state := w_object_n_state # stk\<rparr>)"
    unfolding writes_members_def by blast
  with that show thesis by blast
qed

lemma w_prefix_array:
  assumes "m_state w = st # stk" "st = w_array_1_state \<or> st = w_array_n_state"
  shows "w_prefix w = sep st @ nl w"
  using assms by (auto simp: w_prefix_def)

lemma w_prefix_object_v: "m_state w = w_object_v_state # stk \<Longrightarrow> w_prefix w = []"
  by (simp add: w_prefix_def)

lemma w_after_simps:
  "w_after (w_object_v_state # stk) = w_object_n_state # stk"
  "w_after (w_array_1_state # stk) = w_array_n_state # stk"
  "w_after (w_array_n_state # stk) = w_array_n_state # stk"
  "w_after [] = []"
  by (simp_all add: w_after_def)

lemma sep_simps:
  "sep w_array_1_state = []" "sep w_array_n_state = '',''"
  "sep w_object_1_state = []" "sep w_object_n_state = '',''"
  by (simp_all add: sep_def)

lemma writes_array_empty:
  assumes "w_valpos (m_state w)"
  shows "writes (items (JArray [])) w (w_prefix w @ ''['' @ [] @ '']'')
           (w\<lparr>m_state := w_after (m_state w)\<rparr>)"
proof -
  let ?wb = "w\<lparr>m_state := w_array_1_state # w_after (m_state w)\<rparr>"
  have "m_state ?wb = w_array_1_state # w_after (m_state w)" by simp
  from writes_append[OF writes_begin(2)[OF assms, of "[]"] writes_end_1(2)[OF this, of "[]"]]
  show ?thesis by simp
qed

lemma writes_object_empty:
  assumes "w_valpos (m_state w)"
  shows "writes (items (JObject [])) w (w_prefix w @ ''{'' @ [] @ ''}'')
           (w\<lparr>m_state := w_after (m_state w)\<rparr>)"
proof -
  let ?wb = "w\<lparr>m_state := w_object_1_state # w_after (m_state w)\<rparr>"
  have "m_state ?wb = w_object_1_state # w_after (m_state w)" by simp
  from writes_append[OF writes_begin(1)[OF assms, of "[]"] writes_end_1(1)[OF this, of "[]"]]
  show ?thesis by simp
qed

lemma writes_array:
  assumes "writes_elements vs" "vs \<noteq> []" "w_valpos (m_state w)"
  shows "\<exists>t. json_text (JArray vs) t
           \<and> writes (items (JArray vs)) w (w_prefix w @ t) (w\<lparr>m_state := w_after (m_state w)\<rparr>)"
proof -
  let ?wa = "w\<lparr>m_state := w_after (m_state w)\<rparr>"
  let ?wb = "w\<lparr>m_state := w_array_1_state # w_after (m_state w)\<rparr>"
  let ?wn = "w\<lparr>m_state := w_array_n_state # w_after (m_state w)\<rparr>"
  have b: "m_state ?wb = w_array_1_state # w_after (m_state w)" by simp
  have "w_array_1_state = w_array_1_state \<or> w_array_1_state = w_array_n_state" by simp
  from writes_elementsD[OF assms(1) b this] obtain e where
    e: "\<And>w2. is_ws w2 \<Longrightarrow> json_elements vs (e @ w2)"
    and we: "writes (concat (map items vs)) ?wb (sep w_array_1_state @ e)
               (?wb\<lparr>m_state := w_array_n_state # w_after (m_state w)\<rparr>)"
    by blast
  from we have we': "writes (concat (map items vs)) ?wb e ?wn" by (simp add: sep_simps)
  have n: "m_state ?wn = w_array_n_state # w_after (m_state w)" by simp
  from writes_end_n(2)[OF n, of "[]"]
  have wend: "writes [(array_end, [])] ?wn (nl ?wa @ '']'') ?wa" by simp
  from writes_append[OF writes_begin(2)[OF assms(3), of "[]"] writes_append[OF we' wend]]
  have w: "writes (items (JArray vs)) w (w_prefix w @ ''['' @ (e @ nl ?wa) @ '']'') ?wa" by simp
  from assms(2) obtain v vs' where vs: "vs = v # vs'" by (cases vs) auto
  from e[OF is_ws_nl[of ?wa]] have "json_text (JArray vs) (''['' @ (e @ nl ?wa) @ '']'')"
    unfolding vs by (rule text_array)
  with w show ?thesis by blast
qed

lemma writes_object:
  assumes "writes_members ms" "ms \<noteq> []" "w_valpos (m_state w)"
  shows "\<exists>t. json_text (JObject ms) t
           \<and> writes (items (JObject ms)) w (w_prefix w @ t) (w\<lparr>m_state := w_after (m_state w)\<rparr>)"
proof -
  let ?wa = "w\<lparr>m_state := w_after (m_state w)\<rparr>"
  let ?wb = "w\<lparr>m_state := w_object_1_state # w_after (m_state w)\<rparr>"
  let ?wn = "w\<lparr>m_state := w_object_n_state # w_after (m_state w)\<rparr>"
  have b: "m_state ?wb = w_object_1_state # w_after (m_state w)" by simp
  have "w_object_1_state = w_object_1_state \<or> w_object_1_state = w_object_n_state" by simp
  from writes_membersD[OF assms(1) b this] obtain e where
    e: "\<And>w4. is_ws w4 \<Longrightarrow> json_members ms (e @ w4)"
    and we: "writes (concat (map (\<lambda>m. (key, fst m) # items (snd m)) ms)) ?wb
               (sep w_object_1_state @ e) (?wb\<lparr>m_state := w_object_n_state # w_after (m_state w)\<rparr>)"
    by blast
  from we have we': "writes (concat (map (\<lambda>m. (key, fst m) # items (snd m)) ms)) ?wb e ?wn"
    by (simp add: sep_simps)
  have n: "m_state ?wn = w_object_n_state # w_after (m_state w)" by simp
  from writes_end_n(1)[OF n, of "[]"]
  have wend: "writes [(object_end, [])] ?wn (nl ?wa @ ''}'') ?wa" by simp
  from writes_append[OF writes_begin(1)[OF assms(3), of "[]"] writes_append[OF we' wend]]
  have w: "writes (items (JObject ms)) w (w_prefix w @ ''{'' @ (e @ nl ?wa) @ ''}'') ?wa" by simp
  from assms(2) obtain m ms' where ms: "ms = m # ms'" by (cases ms) auto
  from e[OF is_ws_nl[of ?wa]] have "json_text (JObject ms) (''{'' @ (e @ nl ?wa) @ ''}'')"
    unfolding ms by (rule text_object)
  with w show ?thesis by blast
qed

lemma writes_element_last:
  assumes "writes_value v"
  shows "writes_elements [v]"
  unfolding writes_elements_def
proof (intro allI impI)
  fix w :: writer and st stk
  assume s: "m_state w = st # stk" and st: "st = w_array_1_state \<or> st = w_array_n_state"
  from st have st3: "st = w_object_v_state \<or> st = w_array_1_state \<or> st = w_array_n_state" by blast
  from writes_valueD[OF assms s st3] obtain t where t: "json_text v t"
    and wt: "writes (items v) w (w_prefix w @ t) (w\<lparr>m_state := w_after (st # stk)\<rparr>)"
    by blast
  from st have a: "w_after (st # stk) = w_array_n_state # stk" by (auto simp: w_after_simps)
  have e: "json_elements [v] ((nl w @ t) @ w2)" if "is_ws w2" for w2
    using elements_last[OF is_ws_nl[of w] t that] by simp
  from wt have "writes (concat (map items [v])) w (sep st @ nl w @ t) (w\<lparr>m_state := w_array_n_state # stk\<rparr>)"
    by (simp add: a w_prefix_array[OF s st])
  with e show "\<exists>e. (\<forall>w2. is_ws w2 \<longrightarrow> json_elements [v] (e @ w2))
           \<and> writes (concat (map items [v])) w (sep st @ e) (w\<lparr>m_state := w_array_n_state # stk\<rparr>)"
    by (intro exI[of _ "nl w @ t"]) simp
qed

lemma writes_element_more:
  assumes "writes_value v" "writes_elements (v' # vs)"
  shows "writes_elements (v # v' # vs)"
  unfolding writes_elements_def
proof (intro allI impI)
  fix w :: writer and st stk
  assume s: "m_state w = st # stk" and st: "st = w_array_1_state \<or> st = w_array_n_state"
  let ?w1 = "w\<lparr>m_state := w_array_n_state # stk\<rparr>"
  from st have st3: "st = w_object_v_state \<or> st = w_array_1_state \<or> st = w_array_n_state" by blast
  from writes_valueD[OF assms(1) s st3] obtain t where t: "json_text v t"
    and wt: "writes (items v) w (w_prefix w @ t) (w\<lparr>m_state := w_after (st # stk)\<rparr>)"
    by blast
  from st have a: "w_after (st # stk) = w_array_n_state # stk" by (auto simp: w_after_simps)
  from wt have w1: "writes (items v) w (sep st @ nl w @ t) ?w1"
    by (simp add: a w_prefix_array[OF s st])
  have s1: "m_state ?w1 = w_array_n_state # stk" by simp
  have "w_array_n_state = w_array_1_state \<or> w_array_n_state = w_array_n_state" by simp
  from writes_elementsD[OF assms(2) s1 this] obtain e' where
    e': "\<And>w2. is_ws w2 \<Longrightarrow> json_elements (v' # vs) (e' @ w2)"
    and we: "writes (concat (map items (v' # vs))) ?w1 (sep w_array_n_state @ e')
               (?w1\<lparr>m_state := w_array_n_state # stk\<rparr>)"
    by blast
  from we have we': "writes (concat (map items (v' # vs))) ?w1 ('','' @ e') ?w1"
    by (simp add: sep_simps)
  have e: "json_elements (v # v' # vs) ((nl w @ t @ '','' @ e') @ w2)" if "is_ws w2" for w2
    using elements_more[OF is_ws_nl[of w] t is_ws_simps(1) e'[OF that]] by simp
  from writes_append[OF w1 we']
  have "writes (concat (map items (v # v' # vs))) w (sep st @ nl w @ t @ '','' @ e') ?w1"
    by simp
  with e show "\<exists>e. (\<forall>w2. is_ws w2 \<longrightarrow> json_elements (v # v' # vs) (e @ w2))
           \<and> writes (concat (map items (v # v' # vs))) w (sep st @ e) ?w1"
    by (intro exI[of _ "nl w @ t @ '','' @ e'"]) simp
qed

lemma writes_member:
  assumes "writes_value v" "m_state w = st # stk" "st = w_object_1_state \<or> st = w_object_n_state"
  obtains t where "json_text v t"
    "writes ((key, k) # items v) w (sep st @ nl w @ quoted k @ '': '' @ t)
       (w\<lparr>m_state := w_object_n_state # stk\<rparr>)"
proof -
  let ?wk = "w\<lparr>m_state := w_object_v_state # stk\<rparr>"
  have sk: "m_state ?wk = w_object_v_state # stk" by simp
  have "w_object_v_state = w_object_v_state \<or> w_object_v_state = w_array_1_state
        \<or> w_object_v_state = w_array_n_state" by simp
  from writes_valueD[OF assms(1) sk this] obtain t where t: "json_text v t"
    and wt: "writes (items v) ?wk (w_prefix ?wk @ t) (?wk\<lparr>m_state := w_after (w_object_v_state # stk)\<rparr>)"
    by blast
  from wt have wt': "writes (items v) ?wk t (w\<lparr>m_state := w_object_n_state # stk\<rparr>)"
    by (simp add: w_prefix_object_v[OF sk] w_after_simps)
  from writes_append[OF writes_key[OF assms(2,3), of k] wt']
  have "writes ((key, k) # items v) w (sep st @ nl w @ quoted k @ '': '' @ t)
       (w\<lparr>m_state := w_object_n_state # stk\<rparr>)"
    by simp
  with t that show thesis by blast
qed

lemma member_text:
  assumes "json_text v t" "is_ws w1" "is_ws w4"
  shows "json_members [(k, v)] ((w1 @ quoted k @ '': '' @ t) @ w4)"
  using members_last[OF assms(2) string_body_encode[of k] is_ws_simps(1) is_ws_simps(2) assms(1,3)]
  by (simp add: quoted_def)

lemma member_text_more:
  assumes "json_text v t" "is_ws w1" "json_members (m # ms) ts"
  shows "json_members ((k, v) # m # ms) (w1 @ quoted k @ '': '' @ t @ '','' @ ts)"
  using members_more[OF assms(2) string_body_encode[of k] is_ws_simps(1) is_ws_simps(2) assms(1)
      is_ws_simps(1) assms(3)]
  by (simp add: quoted_def)

lemma writes_member_last:
  assumes "writes_value v"
  shows "writes_members [(k, v)]"
  unfolding writes_members_def
proof (intro allI impI)
  fix w :: writer and st stk
  assume s: "m_state w = st # stk" and st: "st = w_object_1_state \<or> st = w_object_n_state"
  from writes_member[OF assms s st, of k] obtain t where t: "json_text v t"
    and wt: "writes ((key, k) # items v) w (sep st @ nl w @ quoted k @ '': '' @ t)
       (w\<lparr>m_state := w_object_n_state # stk\<rparr>)"
    by blast
  have e: "json_members [(k, v)] ((nl w @ quoted k @ '': '' @ t) @ w4)" if "is_ws w4" for w4
    using member_text[OF t is_ws_nl[of w] that] .
  from wt e show "\<exists>e. (\<forall>w4. is_ws w4 \<longrightarrow> json_members [(k, v)] (e @ w4))
           \<and> writes (concat (map (\<lambda>m. (key, fst m) # items (snd m)) [(k, v)])) w (sep st @ e)
               (w\<lparr>m_state := w_object_n_state # stk\<rparr>)"
    by (intro exI[of _ "nl w @ quoted k @ '': '' @ t"]) simp
qed

lemma writes_member_more:
  assumes "writes_value v" "writes_members (m # ms)"
  shows "writes_members ((k, v) # m # ms)"
  unfolding writes_members_def
proof (intro allI impI)
  fix w :: writer and st stk
  assume s: "m_state w = st # stk" and st: "st = w_object_1_state \<or> st = w_object_n_state"
  let ?w1 = "w\<lparr>m_state := w_object_n_state # stk\<rparr>"
  from writes_member[OF assms(1) s st, of k] obtain t where t: "json_text v t"
    and wt: "writes ((key, k) # items v) w (sep st @ nl w @ quoted k @ '': '' @ t) ?w1"
    by blast
  have s1: "m_state ?w1 = w_object_n_state # stk" by simp
  have "w_object_n_state = w_object_1_state \<or> w_object_n_state = w_object_n_state" by simp
  from writes_membersD[OF assms(2) s1 this] obtain e' where
    e': "\<And>w4. is_ws w4 \<Longrightarrow> json_members (m # ms) (e' @ w4)"
    and we: "writes (concat (map (\<lambda>m. (key, fst m) # items (snd m)) (m # ms))) ?w1
               (sep w_object_n_state @ e') (?w1\<lparr>m_state := w_object_n_state # stk\<rparr>)"
    by blast
  from we have we': "writes (concat (map (\<lambda>m. (key, fst m) # items (snd m)) (m # ms))) ?w1
               ('','' @ e') ?w1"
    by (simp add: sep_simps)
  have e: "json_members ((k, v) # m # ms) ((nl w @ quoted k @ '': '' @ t @ '','' @ e') @ w4)"
    if "is_ws w4" for w4
    using member_text_more[OF t is_ws_nl[of w] e'[OF that], of k] by simp
  from writes_append[OF wt we']
  have "writes (concat (map (\<lambda>m. (key, fst m) # items (snd m)) ((k, v) # m # ms))) w
          (sep st @ nl w @ quoted k @ '': '' @ t @ '','' @ e') ?w1"
    by simp
  with e show "\<exists>e. (\<forall>w4. is_ws w4 \<longrightarrow> json_members ((k, v) # m # ms) (e @ w4))
           \<and> writes (concat (map (\<lambda>m. (key, fst m) # items (snd m)) ((k, v) # m # ms))) w
               (sep st @ e) ?w1"
    by (intro exI[of _ "nl w @ quoted k @ '': '' @ t @ '','' @ e'"]) simp
qed

lemma writes_value_array:
  assumes "writes_elements vs" "vs \<noteq> []"
  shows "writes_value (JArray vs)"
  unfolding writes_value_def using writes_array[OF assms] by blast

lemma writes_value_object:
  assumes "writes_members ms" "ms \<noteq> []"
  shows "writes_value (JObject ms)"
  unfolding writes_value_def using writes_object[OF assms] by blast

lemma writes_value_array_empty: "writes_value (JArray [])"
  unfolding writes_value_def
proof (intro allI impI)
  fix w :: writer assume "w_valpos (m_state w)"
  from writes_array_empty[OF this] text_array_empty[OF is_ws_simps(1)]
  show "\<exists>t. json_text (JArray []) t
           \<and> writes (items (JArray [])) w (w_prefix w @ t) (w\<lparr>m_state := w_after (m_state w)\<rparr>)"
    by (intro exI[of _ "''['' @ [] @ '']''"]) simp
qed

lemma writes_value_object_empty: "writes_value (JObject [])"
  unfolding writes_value_def
proof (intro allI impI)
  fix w :: writer assume "w_valpos (m_state w)"
  from writes_object_empty[OF this] text_object_empty[OF is_ws_simps(1)]
  show "\<exists>t. json_text (JObject []) t
           \<and> writes (items (JObject [])) w (w_prefix w @ t) (w\<lparr>m_state := w_after (m_state w)\<rparr>)"
    by (intro exI[of _ "''{'' @ [] @ ''}''"]) simp
qed

lemma writer_grammar:
  shows "json_text v t \<Longrightarrow> writes_value v"
    and "json_elements vs ts \<Longrightarrow> writes_elements vs"
    and "json_members ms tm \<Longrightarrow> writes_members ms"
proof (induction rule: json_text_json_elements_json_members.inducts)
  case (text_string t p)
  show ?case
    by (rule writes_value_scalar[of _ string_value p])
       (simp_all add: is_scalar_def scalar_text_def json_text_quoted)
next
  case (text_integer t)
  show ?case
    by (rule writes_value_scalar[of _ integer_value t])
       (simp_all add: is_scalar_def scalar_text_def json_text_json_elements_json_members.text_integer[OF text_integer])
next
  case (text_real t)
  show ?case
    by (rule writes_value_scalar[of _ real_value t])
       (simp_all add: is_scalar_def scalar_text_def json_text_json_elements_json_members.text_real[OF text_real])
next
  case text_null
  show ?case
    by (rule writes_value_scalar[of _ null_value "[]"])
       (simp_all add: is_scalar_def scalar_text_def json_text_json_elements_json_members.text_null)
next
  case text_true
  show ?case
    by (rule writes_value_scalar[of _ true_value "[]"])
       (simp_all add: is_scalar_def scalar_text_def json_text_json_elements_json_members.text_true)
next
  case text_false
  show ?case
    by (rule writes_value_scalar[of _ false_value "[]"])
       (simp_all add: is_scalar_def scalar_text_def json_text_json_elements_json_members.text_false)
next
  case (text_array_empty w)
  show ?case by (rule writes_value_array_empty)
next
  case (text_array v vs t)
  then show ?case by (simp add: writes_value_array)
next
  case (text_object_empty w)
  show ?case by (rule writes_value_object_empty)
next
  case (text_object m ms t)
  then show ?case by (simp add: writes_value_object)
next
  case (elements_last w1 v t w2)
  then show ?case by (simp add: writes_element_last)
next
  case (elements_more w1 v t w2 v' vs ts)
  then show ?case by (simp add: writes_element_more)
next
  case (members_last w1 kt k w2 w3 v t w4)
  then show ?case by (simp add: writes_member_last)
next
  case (members_more w1 kt k w2 w3 v t w4 m ms ts)
  then show ?case by (simp add: writes_member_more)
qed

lemma writes_document:
  assumes "document_text v d" "m_state w = []"
  shows "\<exists>out. write_all (items v) (w, []) = Inr (w, out) \<and> document_text v out"
proof -
  from assms(1) obtain w1 t w2 where c: "is_container v" and t: "json_text v t"
    by (auto simp: document_text_def)
  from assms(2) have "w_valpos (m_state w)" by (simp add: w_valpos_def)
  with writer_grammar(1)[OF t] c obtain t' where t': "json_text v t'"
    and w: "writes (items v) w (w_prefix w @ t') (w\<lparr>m_state := w_after (m_state w)\<rparr>)"
    unfolding writes_value_def by blast
  from assms(2) have "w\<lparr>m_state := w_after (m_state w)\<rparr> = w" "w_prefix w = []"
    by (cases w; simp add: w_after_def w_prefix_def)+
  with w have "write_all (items v) (w, []) = Inr (w, t')" by (simp add: writes_def)
  moreover from c t' have "document_text v t'"
    unfolding document_text_def
    by (intro conjI exI[of _ "[]"] exI[of _ t']) (simp_all add: is_ws_simps)
  ultimately show ?thesis by blast
qed

text \<open>
  C1: for every well-formed document (an object or an array, in the grammar above, with
  any white space around it and between its tokens), the reader fed the document raises
  nothing and emits the items and payloads of the value the document denotes, in order;
  these items, replayed into a writer of any indent width, raise nothing and produce a
  document that denotes the same value: same nesting, same keys in the same order, same
  scalar payloads. Fed to a fresh reader, the written document gives the same items and
  payloads again.
\<close>

theorem round_trip:
  assumes "document_text v d"
  shows "\<exists>r evs w out r' evs'.
           feed_all cb_log d (reader_init, []) = Inr (r, evs)
         \<and> payloads evs = items v
         \<and> write_all (payloads evs) (indent n writer_init, []) = Inr (w, out)
         \<and> document_text v out
         \<and> feed_all cb_log out (reader_init, []) = Inr (r', evs')
         \<and> payloads evs' = payloads evs"
proof -
  from reads_document[OF assms] obtain r evs where
    r: "feed_all cb_log d (reader_init, []) = Inr (r, evs)" "payloads evs = items v"
    by blast
  have "m_state (indent n writer_init) = []" by (simp add: indent_def writer_init_def)
  from writes_document[OF assms this] obtain out where
    w: "write_all (items v) (indent n writer_init, []) = Inr (indent n writer_init, out)"
      "document_text v out"
    by blast
  from reads_document[OF w(2)] obtain r' evs' where
    r': "feed_all cb_log out (reader_init, []) = Inr (r', evs')" "payloads evs' = items v"
    by blast
  from r w r' show ?thesis by simp
qed

lemma example_document:
  \<open>document_text (JObject [(''k'', JArray [JInteger ''1'', JReal ''2.5'', JString ''x'', JNull])])
     ''{ "k" : [1, 2.5, "x", null] }''\<close>
proof -
  have i: "json_text (JInteger ''1'') ''1''"
    by (rule text_integer) (simp add: int_text_def nat_text_def digits_def isdigit_def)
  have "real_text ''2.5''"
    unfolding real_text_def
    by (intro exI[of _ "''2''"] exI[of _ "''.5''"] exI[of _ "[]"])
       (simp add: int_text_def nat_text_def digits_def isdigit_def frac_text_def)
  then have f: "json_text (JReal ''2.5'') ''2.5''" by (rule text_real)
  have "string_body ''x'' ''x''"
    by (rule body_char) (simp_all add: body_end)
  from text_string[OF this] have s: \<open>json_text (JString ''x'') ''"x"''\<close> by simp
  have ws: "is_ws []" "is_ws '' ''" by (simp_all add: is_ws_def isspace_def)
  from elements_last[OF ws(2) text_null ws(1)]
  have "json_elements [JNull] '' null''" by simp
  from elements_more[OF ws(2) s ws(1) this]
  have \<open>json_elements [JString ''x'', JNull] '' "x", null''\<close> by simp
  from elements_more[OF ws(2) f ws(1) this]
  have \<open>json_elements [JReal ''2.5'', JString ''x'', JNull] '' 2.5, "x", null''\<close> by simp
  from elements_more[OF ws(1) i ws(1) this]
  have \<open>json_elements [JInteger ''1'', JReal ''2.5'', JString ''x'', JNull] ''1, 2.5, "x", null''\<close>
    by simp
  from text_array[OF this]
  have a: \<open>json_text (JArray [JInteger ''1'', JReal ''2.5'', JString ''x'', JNull])
             ''[1, 2.5, "x", null]''\<close>
    by simp
  have "string_body ''k'' ''k''"
    by (rule body_char) (simp_all add: body_end)
  from members_last[OF ws(2) this ws(2) ws(2) a ws(2)]
  have \<open>json_members [(''k'', JArray [JInteger ''1'', JReal ''2.5'', JString ''x'', JNull])]
          '' "k" : [1, 2.5, "x", null] ''\<close>
    by simp
  from text_object[OF this]
  have \<open>json_text (JObject [(''k'', JArray [JInteger ''1'', JReal ''2.5'', JString ''x'', JNull])])
          ''{ "k" : [1, 2.5, "x", null] }''\<close>
    by simp
  then show ?thesis
    unfolding document_text_def
    by (intro conjI exI[of _ "[]"] exI[of _ \<open>''{ "k" : [1, 2.5, "x", null] }''\<close>])
       (simp_all add: is_container_def ws)
qed

theorem round_trip_witness:
  \<open>document_text (JObject [(''k'', JArray [JInteger ''1'', JReal ''2.5'', JString ''x'', JNull])])
     ''{ "k" : [1, 2.5, "x", null] }''
   \<and> payloads (user_of (feed_all cb_log ''{ "k" : [1, 2.5, "x", null] }'' (reader_init, [])))
      = [(object_begin, []), (key, ''k''), (array_begin, []), (integer_value, ''1''),
         (real_value, ''2.5''), (string_value, ''x''), (null_value, []), (array_end, []),
         (object_end, [])]
   \<and> write_all [(object_begin, []), (key, ''k''), (array_begin, []), (integer_value, ''1''),
         (real_value, ''2.5''), (string_value, ''x''), (null_value, []), (array_end, []),
         (object_end, [])] (indent 0 writer_init, [])
      = Inr (indent 0 writer_init, ''{"k": [1,2.5,"x",null]}'')
   \<and> document_text (JObject [(''k'', JArray [JInteger ''1'', JReal ''2.5'', JString ''x'', JNull])])
       ''{"k": [1,2.5,"x",null]}''\<close>
proof -
  let ?v = "JObject [(''k'', JArray [JInteger ''1'', JReal ''2.5'', JString ''x'', JNull])]"
  have a: \<open>feed_all cb_log ''{ "k" : [1, 2.5, "x", null] }'' (reader_init, [])
      = Inr (\<lparr>m_token_state = [], m_char_state = default_state, m_data = [],
              m_row = 1, m_column = 30, m_unicode = 0\<rparr>,
             [(object_begin, [], 1, 1), (key, ''k'', 1, 5), (array_begin, [], 1, 9),
              (integer_value, ''1'', 1, 11), (real_value, ''2.5'', 1, 16),
              (string_value, ''x'', 1, 20), (null_value, [], 1, 26), (array_end, [], 1, 27),
              (object_end, [], 1, 29)])\<close>
    by code_simp
  have b: \<open>write_all [(object_begin, []), (key, ''k''), (array_begin, []), (integer_value, ''1''),
         (real_value, ''2.5''), (string_value, ''x''), (null_value, []), (array_end, []),
         (object_end, [])] (indent 0 writer_init, [])
      = Inr (indent 0 writer_init, ''{"k": [1,2.5,"x",null]}'')\<close>
    by code_simp
  from round_trip[OF example_document, of 0] obtain r evs w out where
    x: \<open>feed_all cb_log ''{ "k" : [1, 2.5, "x", null] }'' (reader_init, []) = Inr (r, evs)\<close>
      "write_all (payloads evs) (indent 0 writer_init, []) = Inr (w, out)"
      "document_text ?v out"
    by blast
  from x(1) a have p: "payloads evs = [(object_begin, []), (key, ''k''), (array_begin, []),
         (integer_value, ''1''), (real_value, ''2.5''), (string_value, ''x''), (null_value, []),
         (array_end, []), (object_end, [])]"
    by (simp add: payloads_def)
  from x(2) b have \<open>out = ''{"k": [1,2.5,"x",null]}''\<close> unfolding p by simp
  with x(3) have c: \<open>document_text ?v ''{"k": [1,2.5,"x",null]}''\<close> by simp
  from a have d: \<open>payloads (user_of (feed_all cb_log ''{ "k" : [1, 2.5, "x", null] }'' (reader_init, [])))
      = [(object_begin, []), (key, ''k''), (array_begin, []), (integer_value, ''1''),
         (real_value, ''2.5''), (string_value, ''x''), (null_value, []), (array_end, []),
         (object_end, [])]\<close>
    by (simp add: user_of_def payloads_def)
  from example_document b c d show ?thesis by simp
qed

end
